theory Spec2Isabelle
  imports Main "HOL-Library.Word"
begin

unbundle bit_operations_syntax

section \<open>Bytes, errors and the struct codec\<close>

text \<open>
  The model follows \<^verbatim>\<open>bnktool.py\<close>. A file is the list of its bytes; Python
  integers are \<^typ>\<open>int\<close>; every exception the code can raise is a value of
  \<open>error\<close>:
  \<^item> \<open>StructError\<close>: \<^verbatim>\<open>struct.error\<close>, raised by \<^verbatim>\<open>unpack\<close> on a buffer of
    the wrong size and by \<^verbatim>\<open>pack\<close> on a value outside \<open>0 .. 2^32 - 1\<close>;
  \<^item> \<open>ValueErrorMagic expected got\<close>: the \<^verbatim>\<open>ValueError\<close> raised by \<^verbatim>\<open>_parse\<close>
    on a wrong chunk magic, with the two numbers its message shows;
  \<^item> \<open>ValueErrorLiteral s\<close>: the \<^verbatim>\<open>ValueError\<close> raised by \<^verbatim>\<open>int(s)\<close>;
  \<^item> \<open>EOFError\<close>: raised by \<^verbatim>\<open>array.fromfile\<close> when the file is too short;
  \<^item> \<open>IndexError\<close>: a list index out of range;
  \<^item> \<open>UnboundLocalError\<close>: a local variable read before any assignment;
  \<^item> \<open>OSError name\<close>: \<^verbatim>\<open>open\<close> on a file that does not exist;
  \<^item> \<open>TypeError\<close>: iterating over \<^verbatim>\<open>None\<close>.
\<close>

type_synonym byte = "8 word"

datatype error =
    StructError
  | ValueErrorMagic int int
  | ValueErrorLiteral string
  | EOFError
  | IndexError
  | UnboundLocalError
  | OSError string
  | TypeError

text \<open>Little-endian value of a byte string (\<^verbatim>\<open>'<I'\<close> on four bytes).\<close>

fun le_int :: "byte list \<Rightarrow> int" where
  "le_int [] = 0"
| "le_int (b # bs) = uint b + 256 * le_int bs"

text \<open>The four little-endian bytes of a number.\<close>

definition le_bytes :: "int \<Rightarrow> byte list" where
  "le_bytes v = [word_of_int v, word_of_int (v div 256),
                 word_of_int (v div 65536), word_of_int (v div 16777216)]"

text \<open>\<^verbatim>\<open>unpack('<I' * n, buf)\<close>: the buffer must hold exactly \<open>4 * n\<close> bytes.\<close>

fun words_of :: "byte list \<Rightarrow> int list" where
  "words_of (a # b # c # d # rest) = le_int [a, b, c, d] # words_of rest"
| "words_of _ = []"

definition unpack :: "nat \<Rightarrow> byte list \<Rightarrow> error + int list" where
  "unpack n buf = (if length buf = 4 * n then Inr (words_of buf) else Inl StructError)"

text \<open>\<^verbatim>\<open>pack('<I' * n, v1, ..., vn)\<close>: every value must fit an unsigned 32-bit field.\<close>

definition fits_u32 :: "int \<Rightarrow> bool" where
  "fits_u32 v \<longleftrightarrow> 0 \<le> v \<and> v < 4294967296"

definition pack :: "int list \<Rightarrow> error + byte list" where
  "pack vs = (if list_all fits_u32 vs then Inr (concat (map le_bytes vs)) else Inl StructError)"

section \<open>The bank\<close>

text \<open>
  \<^verbatim>\<open>AudioItem = namedtuple('AudioItem', ('len', 'data'))\<close>; \<open>data\<close> is an
  \<^verbatim>\<open>array('b')\<close>, one element per byte of the file. \<^verbatim>\<open>audio_items\<close> is an
  \<^verbatim>\<open>OrderedDict\<close> from strings to items: an association list in insertion order.
  The fields \<^verbatim>\<open>file\<close> (a path) and \<^verbatim>\<open>verbose\<close> (printing only) are not part of the
  model: the content of the file is passed to \<open>parse\<close> directly.
\<close>

record AudioItem =
  len :: int
  data :: "byte list"

type_synonym items = "(string \<times> AudioItem) list"

record Bank =
  header :: "int list"
  audio_items :: items
  trailing_data :: "byte list"
  dirty :: bool

definition MAGIC_DIDX :: int where
  "MAGIC_DIDX = 0x58444944"

definition MAGIC_AUDIO :: int where
  "MAGIC_AUDIO = 0x41544144"

text \<open>
  \<^verbatim>\<open>d[k] = v\<close> on an \<^verbatim>\<open>OrderedDict\<close>: an existing key keeps its place and gets
  the new value, a new key goes to the end.
\<close>

fun od_set :: "string \<Rightarrow> AudioItem \<Rightarrow> items \<Rightarrow> items" where
  "od_set k v [] = [(k, v)]"
| "od_set k v ((k', v') # rest) =
     (if k' = k then (k, v) # rest else (k', v') # od_set k v rest)"

section \<open>Decimal strings\<close>

text \<open>\<^verbatim>\<open>str(n)\<close> for an integer.\<close>

definition digit_char :: "nat \<Rightarrow> char" where
  "digit_char d = char_of (48 + d)"

function str_nat :: "nat \<Rightarrow> string" where
  "str_nat n = (if n < 10 then [digit_char n] else str_nat (n div 10) @ [digit_char (n mod 10)])"
  by pat_completeness auto
termination
  by (relation "measure id") auto

definition str :: "int \<Rightarrow> string" where
  "str v = (if v < 0 then CHR ''-'' # str_nat (nat (- v)) else str_nat (nat v))"

text \<open>
  \<^verbatim>\<open>int(s)\<close> for a string, base 10: white space is stripped at both ends, one sign
  may come first, then digits, where single underscores may stand between two digits.
  Anything else raises \<^verbatim>\<open>ValueError\<close>. Characters are the code points below 256;
  the white space \<^verbatim>\<open>int\<close> skips among them is tab, line feed, vertical tab, form
  feed, carriage return, space, and the code points 133 and 160.
\<close>

definition is_space :: "char \<Rightarrow> bool" where
  "is_space c \<longleftrightarrow> (of_char c :: nat) \<in> {9, 10, 11, 12, 13, 32, 133, 160}"

definition is_digit :: "char \<Rightarrow> bool" where
  "is_digit c \<longleftrightarrow> 48 \<le> (of_char c :: nat) \<and> (of_char c :: nat) \<le> 57"

definition digit_val :: "char \<Rightarrow> int" where
  "digit_val c = int (of_char c) - 48"

fun digits_value :: "int \<Rightarrow> bool \<Rightarrow> string \<Rightarrow> int option" where
  "digits_value acc prev [] = (if prev then Some acc else None)"
| "digits_value acc prev (c # cs) =
     (if is_digit c then digits_value (10 * acc + digit_val c) True cs
      else if c = CHR ''_'' \<and> prev \<and> cs \<noteq> [] \<and> is_digit (hd cs) then digits_value acc False cs
      else None)"

definition strip :: "string \<Rightarrow> string" where
  "strip s = rev (dropWhile is_space (rev (dropWhile is_space s)))"

definition py_int :: "string \<Rightarrow> error + int" where
  "py_int s =
     (case strip s of
        [] \<Rightarrow> Inl (ValueErrorLiteral s)
      | c # cs \<Rightarrow>
          (if c = CHR ''-'' then
             (case digits_value 0 False cs of None \<Rightarrow> Inl (ValueErrorLiteral s) | Some v \<Rightarrow> Inr (- v))
           else if c = CHR ''+'' then
             (case digits_value 0 False cs of None \<Rightarrow> Inl (ValueErrorLiteral s) | Some v \<Rightarrow> Inr v)
           else
             (case digits_value 0 False (c # cs) of None \<Rightarrow> Inl (ValueErrorLiteral s) | Some v \<Rightarrow> Inr v)))"

section \<open>Parsing: \<^verbatim>\<open>InstrumentBank._parse\<close>\<close>

text \<open>
  The header loop: \<^verbatim>\<open>while current_pos < self.header[1] + 8\<close> reads one more word.
  \<open>f\<close> is what is left of the file. Every round consumes four bytes, or raises.
\<close>

function hdr_loop :: "int list \<Rightarrow> int \<Rightarrow> byte list \<Rightarrow> error + (int list \<times> byte list)" where
  "hdr_loop hdr current_pos f =
     (if length hdr < 2 then Inl IndexError
      else if current_pos < hdr ! 1 + 8 then
        (case unpack 1 (take 4 f) of
           Inl e \<Rightarrow> Inl e
         | Inr ws \<Rightarrow> hdr_loop (hdr @ ws) (current_pos + 4) (drop 4 f))
      else Inr (hdr, f))"
  by pat_completeness auto
termination
  by (relation "measure (\<lambda>(hdr, current_pos, f). length f)")
     (auto simp: unpack_def split: if_splits)

text \<open>
  The index loop: \<^verbatim>\<open>for _ in range(num_items)\<close> reads \<open>(id, offset, length)\<close> and
  stores an item with no data yet under \<^verbatim>\<open>str(id)\<close>. The running total
  \<^verbatim>\<open>audio_length\<close> is never read and is left out.
\<close>

fun didx_loop :: "nat \<Rightarrow> items \<Rightarrow> byte list \<Rightarrow> error + (items \<times> byte list)" where
  "didx_loop 0 its f = Inr (its, f)"
| "didx_loop (Suc n) its f =
     (case unpack 3 (take 12 f) of
        Inl e \<Rightarrow> Inl e
      | Inr ws \<Rightarrow> didx_loop n (od_set (str (ws ! 0)) \<lparr>len = ws ! 2, data = []\<rparr> its) (drop 12 f))"

text \<open>
  The payload loop: skip the padding of the previous item, then
  \<^verbatim>\<open>audio.data.fromfile(file, audio.len)\<close> appends exactly \<open>len\<close> bytes to the item's
  array or raises \<^verbatim>\<open>EOFError\<close>; \<^verbatim>\<open>file.read(padding)\<close> may return fewer bytes at
  the end of the file without raising.
\<close>

fun data_loop :: "items \<Rightarrow> int \<Rightarrow> byte list \<Rightarrow> error + (items \<times> byte list)" where
  "data_loop [] padding f = Inr ([], f)"
| "data_loop ((k, audio) # rest) padding f =
     (let f1 = drop (nat padding) f in
      if length f1 < nat (len audio) then Inl EOFError
      else
        (case data_loop rest ((- len audio) mod 16) (drop (nat (len audio)) f1) of
           Inl e \<Rightarrow> Inl e
         | Inr (rest', f') \<Rightarrow>
             Inr ((k, audio\<lparr>data := data audio @ take (nat (len audio)) f1\<rparr>) # rest', f')))"

text \<open>
  \<open>_parse\<close> in two parts: \<open>read_header\<close> is the code up to the end of the header
  loop (it returns the header words and what is left of the file), \<open>parse\<close> the
  whole function.
\<close>

definition read_header :: "byte list \<Rightarrow> error + (int list \<times> byte list)" where
  "read_header file =
     (case unpack 4 (take 16 file) of
        Inl e \<Rightarrow> Inl e
      | Inr ws \<Rightarrow> hdr_loop ([] @ ws) 16 (drop 16 file))"

definition parse :: "byte list \<Rightarrow> error + Bank" where
  "parse file =
     (case read_header file of
        Inl e \<Rightarrow> Inl e
      | Inr (hdr, f1) \<Rightarrow>
     (case unpack 2 (take 8 f1) of
        Inl e \<Rightarrow> Inl e
      | Inr ml \<Rightarrow>
          if ml ! 0 \<noteq> MAGIC_DIDX then Inl (ValueErrorMagic MAGIC_DIDX (ml ! 0))
          else
     (case didx_loop (nat (ml ! 1 div 12)) [] (drop 8 f1) of
        Inl e \<Rightarrow> Inl e
      | Inr (its, f2) \<Rightarrow>
     (case unpack 2 (take 8 f2) of
        Inl e \<Rightarrow> Inl e
      | Inr ml2 \<Rightarrow>
          if ml2 ! 0 \<noteq> MAGIC_AUDIO then Inl (ValueErrorMagic MAGIC_AUDIO (ml2 ! 0))
          else
     (case data_loop its 0 (drop 8 f2) of
        Inl e \<Rightarrow> Inl e
      | Inr (its', f3) \<Rightarrow>
          Inr \<lparr>header = hdr, audio_items = its', trailing_data = f3, dirty = False\<rparr>)))))"

section \<open>Writing: \<^verbatim>\<open>InstrumentBank.to_file\<close>\<close>

text \<open>
  \<open>to_file\<close> returns the bytes written to the output file and the exception that
  stopped it, if any: what was written before a \<^verbatim>\<open>raise\<close> stays in the file.
\<close>

fun write_header :: "int list \<Rightarrow> byte list \<times> error option" where
  "write_header [] = ([], None)"
| "write_header (i # rest) =
     (case pack [i] of
        Inl e \<Rightarrow> ([], Some e)
      | Inr bs \<Rightarrow> (case write_header rest of (bs', r) \<Rightarrow> (bs @ bs', r)))"

text \<open>
  The index loop. The local variable \<^verbatim>\<open>padding\<close> has no value before the first
  round: \<open>None\<close>. The loop returns its last value.
\<close>

fun write_index :: "items \<Rightarrow> int \<Rightarrow> int option \<Rightarrow> byte list \<times> (error + int option)" where
  "write_index [] offset padding = ([], Inr padding)"
| "write_index ((key, audio) # rest) offset padding =
     (case py_int key of
        Inl e \<Rightarrow> ([], Inl e)
      | Inr i \<Rightarrow>
     (case pack [i, offset, len audio] of
        Inl e \<Rightarrow> ([], Inl e)
      | Inr bs \<Rightarrow>
          (let padding' = (- len audio) mod 16 in
           case write_index rest (offset + (len audio + padding')) (Some padding') of
             (bs', r) \<Rightarrow> (bs @ bs', r))))"

fun write_data :: "items \<Rightarrow> int \<Rightarrow> byte list" where
  "write_data [] padding = []"
| "write_data ((key, audio) # rest) padding =
     replicate (nat padding) 0 @ data audio @ write_data rest ((- len audio) mod 16)"

definition to_file :: "Bank \<Rightarrow> byte list \<times> error option" where
  "to_file b =
     (case write_header (header b) of (hb, r) \<Rightarrow>
     (case r of
        Some e \<Rightarrow> (hb, Some e)
      | None \<Rightarrow>
     (case pack [MAGIC_DIDX, int (length (audio_items b)) * 12] of
        Inl e \<Rightarrow> (hb, Some e)
      | Inr db \<Rightarrow>
     (case write_index (audio_items b) 0 None of (ib, r') \<Rightarrow>
     (case r' of
        Inl e \<Rightarrow> (hb @ db @ ib, Some e)
      | Inr None \<Rightarrow> (hb @ db @ ib, Some UnboundLocalError)
      | Inr (Some padding) \<Rightarrow>
     (case pack [MAGIC_AUDIO,
                 sum_list (map (\<lambda>(key, audio). (len audio + 15) AND NOT 15) (audio_items b)) - padding] of
        Inl e \<Rightarrow> (hb @ db @ ib, Some e)
      | Inr ab \<Rightarrow>
          (hb @ db @ ib @ ab @ write_data (audio_items b) 0 @ trailing_data b, None)))))))"

section \<open>Changing the bank: \<^verbatim>\<open>update\<close> and \<^verbatim>\<open>empty\<close>\<close>

text \<open>
  \<^verbatim>\<open>os.path.splitext\<close> (POSIX): the extension starts at the last dot of the last
  path component, unless that component has only dots before it. The library's loop
  looks for a character other than a dot between the last separator and the last dot.
\<close>

definition rfind :: "char \<Rightarrow> string \<Rightarrow> int" where
  "rfind c p =
     (if c \<in> set p then int (length p) - 1 - int (length (takeWhile (\<lambda>x. x \<noteq> c) (rev p)))
      else - 1)"

definition splitext :: "string \<Rightarrow> string \<times> string" where
  "splitext p =
     (let sepIndex = rfind CHR ''/'' p; dotIndex = rfind CHR ''.'' p in
      if dotIndex > sepIndex \<and>
         list_ex (\<lambda>c. c \<noteq> CHR ''.'')
           (take (nat (dotIndex - (sepIndex + 1))) (drop (nat (sepIndex + 1)) p))
      then (take (nat dotIndex) p, drop (nat dotIndex) p)
      else (p, []))"

text \<open>
  \<^verbatim>\<open>update\<close> reads each named file from the file system \<open>fs\<close> and stores its
  content under the name without extension. An exception leaves the bank as changed so
  far. The default argument \<^verbatim>\<open>None\<close> cannot be iterated.
\<close>

fun update_loop :: "(string \<rightharpoonup> byte list) \<Rightarrow> string list \<Rightarrow> Bank \<Rightarrow> Bank \<times> error option" where
  "update_loop fs [] b = (b, None)"
| "update_loop fs (file # rest) b =
     (let key = fst (splitext file) in
      case fs file of
        None \<Rightarrow> (b, Some (OSError file))
      | Some d \<Rightarrow>
          update_loop fs rest
            (b\<lparr>audio_items := od_set key \<lparr>len = int (length d), data = d\<rparr> (audio_items b),
               dirty := True\<rparr>))"

definition update :: "(string \<rightharpoonup> byte list) \<Rightarrow> string list option \<Rightarrow> Bank \<Rightarrow> Bank \<times> error option" where
  "update fs to_update b =
     (case to_update of None \<Rightarrow> (b, Some TypeError) | Some files \<Rightarrow> update_loop fs files b)"

text \<open>\<^verbatim>\<open>empty\<close>: \<^verbatim>\<open>remove_list = to_remove or []\<close>, then one assignment per name.\<close>

fun empty_loop :: "string list \<Rightarrow> Bank \<Rightarrow> Bank" where
  "empty_loop [] b = b"
| "empty_loop (name # rest) b =
     (let key = fst (splitext name) in
      empty_loop rest
        (b\<lparr>audio_items := od_set key \<lparr>len = 0, data = []\<rparr> (audio_items b), dirty := True\<rparr>))"

definition empty :: "string list option \<Rightarrow> Bank \<Rightarrow> Bank" where
  "empty to_remove b =
     empty_loop (case to_remove of None \<Rightarrow> [] | Some names \<Rightarrow> names) b"

text \<open>The banks a session can hold: parsed from a file, then changed by the two operations.\<close>

inductive reachable :: "Bank \<Rightarrow> bool" where
  reach_parse: "parse file = Inr b \<Longrightarrow> reachable b"
| reach_update: "reachable b \<Longrightarrow> update fs to_update b = (b', r) \<Longrightarrow> reachable b'"
| reach_empty: "reachable b \<Longrightarrow> empty to_remove b = b' \<Longrightarrow> reachable b'"

section \<open>Invariants and examples\<close>

text \<open>
  \<open>data_ok\<close>: every item stores exactly \<open>len\<close> bytes. \<open>blank_ok\<close>: the state of the
  items between the two loops of \<open>_parse\<close>, lengths read from the index and no data yet.
\<close>

definition data_ok :: "items \<Rightarrow> bool" where
  "data_ok its \<longleftrightarrow> (\<forall>(k, a) \<in> set its. int (length (data a)) = len a)"

definition blank_ok :: "items \<Rightarrow> bool" where
  "blank_ok its \<longleftrightarrow> (\<forall>(k, a) \<in> set its. data a = [] \<and> fits_u32 (len a))"

text \<open>
  A file with five header words, two items of 3 and 2 bytes, 13 bytes of padding between
  them and two trailing bytes; the bank it parses to; a bank without items; a file
  system with two payload files.
\<close>

definition file_two :: "byte list" where
  "file_two =
     [0x42, 0x4B, 0x48, 0x44, 12, 0, 0, 0, 1, 0, 0, 0, 7, 0, 0, 0, 9, 0, 0, 0,
      0x44, 0x49, 0x44, 0x58, 24, 0, 0, 0,
      1, 0, 0, 0, 0, 0, 0, 0, 3, 0, 0, 0,
      2, 0, 0, 0, 16, 0, 0, 0, 2, 0, 0, 0,
      0x44, 0x41, 0x54, 0x41, 18, 0, 0, 0,
      10, 11, 12, 0, 0, 0, 0, 0, 0, 0, 0, 0, 0, 0, 0, 0, 20, 21, 99, 98]"

definition bank_two :: Bank where
  "bank_two =
     \<lparr>header = [1145588546, 12, 1, 7, 9],
      audio_items = [(''1'', \<lparr>len = 3, data = [10, 11, 12]\<rparr>), (''2'', \<lparr>len = 2, data = [20, 21]\<rparr>)],
      trailing_data = [99, 98], dirty = False\<rparr>"

definition bank_none :: Bank where
  "bank_none = \<lparr>header = [1145588546, 8, 1, 7], audio_items = [], trailing_data = [], dirty = False\<rparr>"

definition fs_one :: "string \<rightharpoonup> byte list" where
  "fs_one = [''1.wem'' \<mapsto> [1, 2, 3, 4, 5], ''snd/77.wem'' \<mapsto> [7]]"

text \<open>
  The spec's words for the payload-chunk length: the item lengths rounded up to the next
  multiple of 16, summed, minus the padding that would follow the last item.
\<close>

definition round_up16 :: "int \<Rightarrow> int" where
  "round_up16 x = 16 * ((x + 15) div 16)"

definition spec_payload_length :: "int list \<Rightarrow> int" where
  "spec_payload_length lens = sum_list (map round_up16 lens) - (- last lens) mod 16"

text \<open>
  More examples: a file whose index-chunk magic is 0; a file whose index chunk declares
  13 bytes; a bank with items of 10, 20 and 0 bytes.
\<close>

definition file_bad_magic :: "byte list" where
  "file_bad_magic =
     [0x42, 0x4B, 0x48, 0x44, 8, 0, 0, 0, 1, 0, 0, 0, 7, 0, 0, 0,
      0, 0, 0, 0, 12, 0, 0, 0,
      1, 0, 0, 0, 0, 0, 0, 0, 1, 0, 0, 0,
      0x44, 0x41, 0x54, 0x41, 1, 0, 0, 0, 42]"

definition file_len13 :: "byte list" where
  "file_len13 =
     [0x42, 0x4B, 0x48, 0x44, 8, 0, 0, 0, 1, 0, 0, 0, 7, 0, 0, 0,
      0x44, 0x49, 0x44, 0x58, 13, 0, 0, 0,
      1, 0, 0, 0, 0, 0, 0, 0, 1, 0, 0, 0,
      0x44, 0x41, 0x54, 0x41, 1, 0, 0, 0, 42]"


text \<open>
  \<open>blank\<close>: an item as the index loop of \<open>_parse\<close> stores it, with its length and no
  data. \<open>keys_ok\<close>: the keys are distinct and each is \<^verbatim>\<open>str\<close> of a 32-bit number, as
  \<open>_parse\<close> makes them.
\<close>

definition blank :: "string \<times> AudioItem \<Rightarrow> string \<times> AudioItem" where
  "blank x = (fst x, \<lparr>len = len (snd x), data = []\<rparr>)"

definition keys_ok :: "items \<Rightarrow> bool" where
  "keys_ok its \<longleftrightarrow>
     distinct (map fst its) \<and> (\<forall>k \<in> fst ` set its. \<exists>v. fits_u32 v \<and> k = str v)"

text \<open>
  Files and banks for the round trip. \<open>file_odd\<close> declares an index length of 37,
  repeats id 5 in the index, has arbitrary offsets, a wrong payload-chunk length and
  non-zero padding; \<open>bank_odd\<close> is what it parses to and \<open>file_odd_again\<close> what
  \<open>to_file\<close> writes for it. \<open>file_none\<close> has no items. \<open>file_big\<close> and \<open>file_far\<close>
  are longer than 4 GiB: two items of 2^31 bytes, and an item of 2^32 - 1 bytes followed
  by one more. The last three banks hold a key that is not a number, a negative one and
  one that needs 33 bits.
\<close>

definition file_odd :: "byte list" where
  "file_odd =
     [0x42, 0x4B, 0x48, 0x44, 8, 0, 0, 0, 1, 0, 0, 0, 7, 0, 0, 0,
      0x44, 0x49, 0x44, 0x58, 37, 0, 0, 0,
      5, 0, 0, 0, 99, 0, 0, 0, 3, 0, 0, 0,
      6, 0, 0, 0, 7, 0, 0, 0, 1, 0, 0, 0,
      5, 0, 0, 0, 0, 0, 0, 0, 2, 0, 0, 0,
      0x44, 0x41, 0x54, 0x41, 5, 0, 0, 0,
      10, 11, 1, 2, 3, 4, 5, 6, 7, 8, 9, 10, 11, 12, 13, 14, 12, 99]"

definition bank_odd :: Bank where
  "bank_odd =
     \<lparr>header = [1145588546, 8, 1, 7],
      audio_items = [(''5'', \<lparr>len = 2, data = [10, 11]\<rparr>), (''6'', \<lparr>len = 1, data = [12]\<rparr>)],
      trailing_data = [99], dirty = False\<rparr>"

definition file_odd_again :: "byte list" where
  "file_odd_again =
     [0x42, 0x4B, 0x48, 0x44, 8, 0, 0, 0, 1, 0, 0, 0, 7, 0, 0, 0,
      0x44, 0x49, 0x44, 0x58, 24, 0, 0, 0,
      5, 0, 0, 0, 0, 0, 0, 0, 2, 0, 0, 0,
      6, 0, 0, 0, 16, 0, 0, 0, 1, 0, 0, 0,
      0x44, 0x41, 0x54, 0x41, 17, 0, 0, 0,
      10, 11, 0, 0, 0, 0, 0, 0, 0, 0, 0, 0, 0, 0, 0, 0, 12, 99]"

definition file_none :: "byte list" where
  "file_none =
     [0x42, 0x4B, 0x48, 0x44, 8, 0, 0, 0, 1, 0, 0, 0, 7, 0, 0, 0,
      0x44, 0x49, 0x44, 0x58, 0, 0, 0, 0,
      0x44, 0x41, 0x54, 0x41, 0, 0, 0, 0]"

definition file_big :: "byte list" where
  "file_big =
     [0x42, 0x4B, 0x48, 0x44, 8, 0, 0, 0, 1, 0, 0, 0, 7, 0, 0, 0,
      0x44, 0x49, 0x44, 0x58, 24, 0, 0, 0,
      1, 0, 0, 0, 0, 0, 0, 0, 0, 0, 0, 0x80,
      2, 0, 0, 0, 0, 0, 0, 0x80, 0, 0, 0, 0x80,
      0x44, 0x41, 0x54, 0x41, 0, 0, 0, 0] @ replicate 4294967296 0"

definition bank_big :: Bank where
  "bank_big =
     \<lparr>header = [1145588546, 8, 1, 7],
      audio_items =
        [(''1'', \<lparr>len = 2147483648, data = replicate 2147483648 0\<rparr>),
         (''2'', \<lparr>len = 2147483648, data = replicate 2147483648 0\<rparr>)],
      trailing_data = [], dirty = False\<rparr>"

definition file_far :: "byte list" where
  "file_far =
     [0x42, 0x4B, 0x48, 0x44, 8, 0, 0, 0, 1, 0, 0, 0, 7, 0, 0, 0,
      0x44, 0x49, 0x44, 0x58, 24, 0, 0, 0,
      1, 0, 0, 0, 0, 0, 0, 0, 0xFF, 0xFF, 0xFF, 0xFF,
      2, 0, 0, 0, 0, 0, 0, 0, 1, 0, 0, 0,
      0x44, 0x41, 0x54, 0x41, 0, 0, 0, 0] @ replicate 4294967295 0 @ [0, 9]"

definition bank_far :: Bank where
  "bank_far =
     \<lparr>header = [1145588546, 8, 1, 7],
      audio_items =
        [(''1'', \<lparr>len = 4294967295, data = replicate 4294967295 0\<rparr>),
         (''2'', \<lparr>len = 1, data = [9]\<rparr>)],
      trailing_data = [], dirty = False\<rparr>"





section \<open>Facts about the model\<close>

text \<open>The two loops defined by \<^theory_text>\<open>function\<close> are unfolded by hand.\<close>

declare hdr_loop.simps [simp del]
declare str_nat.simps [simp del]

subsection \<open>The codec\<close>

lemma le_int_nonneg: "0 \<le> le_int bs"
  by (induction bs) auto

lemma le_int_bound: "le_int bs < 256 ^ length bs"
proof (induction bs)
  case Nil
  then show ?case by simp
next
  case (Cons b bs)
  have "uint b < 256" using uint_bounded [of b] by simp
  moreover have "le_int bs + 1 \<le> 256 ^ length bs" using Cons by simp
  then have "256 * (le_int bs + 1) \<le> 256 * 256 ^ length bs" by simp
  ultimately show ?case by simp
qed

lemma le_int_fits: "length bs = 4 \<Longrightarrow> fits_u32 (le_int bs)"
  using le_int_bound [of bs] le_int_nonneg [of bs] by (simp add: fits_u32_def)

lemma byte_of_sum: "(word_of_int (uint (b :: byte) + 256 * k) :: byte) = b"
proof -
  have "(word_of_int (uint b + 256 * k) :: byte) = word_of_int (uint b)"
    by (subst word_of_int_eq_iff) (simp add: take_bit_eq_mod)
  then show ?thesis by simp
qed

lemma div_256_sum: "(uint (b :: byte) + 256 * k) div 256 = k"
proof -
  have "0 \<le> uint b" "uint b < 256" using uint_bounded [of b] by simp_all
  then show ?thesis by simp
qed

lemma le_bytes_le_int:
  "le_bytes (le_int [a, b, c, d]) = [a, b, c, d]"
proof -
  let ?v = "le_int [a, b, c, d]"
  have v: "?v = uint a + 256 * (uint b + 256 * (uint c + 256 * uint d))" by simp
  have 1: "(word_of_int ?v :: byte) = a" unfolding v by (rule byte_of_sum)
  have d1: "?v div 256 = uint b + 256 * (uint c + 256 * uint d)" unfolding v by (rule div_256_sum)
  have d2: "?v div 65536 = uint c + 256 * uint d"
  proof -
    have "?v div 65536 = (?v div 256) div 256" by (simp add: div_mult2_eq [symmetric])
    then show ?thesis unfolding d1 by (simp only: div_256_sum)
  qed
  have d3: "?v div 16777216 = uint d"
  proof -
    have "?v div 16777216 = (?v div 65536) div 256" by (simp add: div_mult2_eq [symmetric])
    then show ?thesis unfolding d2 using div_256_sum [of c "uint d"] by simp
  qed
  have 2: "(word_of_int (?v div 256) :: byte) = b" unfolding d1 by (rule byte_of_sum)
  have 3: "(word_of_int (?v div 65536) :: byte) = c" unfolding d2 by (rule byte_of_sum)
  have 4: "(word_of_int (?v div 16777216) :: byte) = d" unfolding d3 by simp
  show ?thesis unfolding le_bytes_def using 1 2 3 4 by simp
qed

lemma uint_byte_of_int: "uint (word_of_int k :: byte) = k mod 256"
  by (simp add: uint_word_of_int)

lemma le_int_le_bytes: "fits_u32 v \<Longrightarrow> le_int (le_bytes v) = v"
proof -
  assume "fits_u32 v"
  then have r: "0 \<le> v" "v < 4294967296" by (simp_all add: fits_u32_def)
  have a: "v div 16777216 mod 256 = v div 16777216" using r by simp
  have b: "v div 65536 = v div 256 div 256" by (simp add: div_mult2_eq [symmetric])
  have c: "v div 16777216 = v div 256 div 256 div 256" by (simp add: div_mult2_eq [symmetric])
  show ?thesis
    unfolding le_bytes_def
    apply (simp add: uint_byte_of_int a)
    apply (simp add: b c)
    using div_mult_mod_eq [of v 256] div_mult_mod_eq [of "v div 256" 256]
      div_mult_mod_eq [of "v div 256 div 256" 256]
    apply linarith
    done
qed

lemma length_le_bytes [simp]: "length (le_bytes v) = 4"
  by (simp add: le_bytes_def)

lemma words_of_le_bytes: "words_of (le_bytes v @ rest) = le_int (le_bytes v) # words_of rest"
  by (simp add: le_bytes_def)

lemma words_of_concat:
  "list_all fits_u32 vs \<Longrightarrow> words_of (concat (map le_bytes vs) @ rest) = vs @ words_of rest"
  by (induction vs) (simp_all add: words_of_le_bytes le_int_le_bytes)

lemma length_words_of: "length (words_of bs) = length bs div 4"
  by (induction bs rule: words_of.induct) simp_all

lemma words_of_fits: "list_all fits_u32 (words_of bs)"
proof (induction bs rule: words_of.induct)
  case (1 a b c d rest)
  have "fits_u32 (le_int [a, b, c, d])" by (rule le_int_fits) simp
  with 1 show ?case by simp
qed simp_all

lemma concat_words_of: "length bs = 4 * n \<Longrightarrow> concat (map le_bytes (words_of bs)) = bs"
proof (induction bs arbitrary: n rule: words_of.induct)
  case (1 a b c d rest)
  from 1(2) obtain m where "n = Suc m" by (cases n) auto
  with 1(2) have "length rest = 4 * m" by simp
  from 1(1) [OF this] show ?case by (simp add: le_bytes_le_int del: le_int.simps)
qed (simp_all, presburger+)

lemma unpack_Inr_iff: "unpack n buf = Inr ws \<longleftrightarrow> length buf = 4 * n \<and> ws = words_of buf"
  by (auto simp: unpack_def)

lemma pack_Inr_iff: "pack vs = Inr bs \<longleftrightarrow> list_all fits_u32 vs \<and> bs = concat (map le_bytes vs)"
  by (auto simp: pack_def)


lemma length_concat_le_bytes [simp]: "length (concat (map le_bytes vs)) = 4 * length vs"
  by (induction vs) simp_all

lemma write_header_eq:
  "write_header h =
     (concat (map le_bytes (takeWhile fits_u32 h)),
      if list_all fits_u32 h then None else Some StructError)"
  by (induction h) (auto simp: pack_def le_bytes_def split: prod.splits sum.splits)

lemma write_header_fits:
  "list_all fits_u32 h \<Longrightarrow> write_header h = (concat (map le_bytes h), None)"
  by (induction h) (simp_all add: pack_def)

subsection \<open>The ordered dictionary\<close>

lemma od_set_absent: "k \<notin> fst ` set its \<Longrightarrow> od_set k v its = its @ [(k, v)]"
  by (induction its) auto

lemma od_set_keys_present: "k \<in> fst ` set its \<Longrightarrow> map fst (od_set k v its) = map fst its"
  by (induction k v its rule: od_set.induct) force+

lemma od_set_present:
  "k \<in> fst ` set its \<Longrightarrow>
   \<exists>i<length its. fst (its ! i) = k \<and> (\<forall>j<i. fst (its ! j) \<noteq> k) \<and> od_set k v its = its[i := (k, v)]"
proof (induction its)
  case Nil
  then show ?case by simp
next
  case (Cons x its)
  show ?case
  proof (cases "fst x = k")
    case True
    then have "od_set k v (x # its) = (x # its)[0 := (k, v)]" by (cases x) simp
    with True show ?thesis by (intro exI [of _ 0]) simp
  next
    case False
    with Cons.prems have "k \<in> fst ` set its" by auto
    from Cons.IH [OF this] obtain i where i: "i < length its" "fst (its ! i) = k"
      "\<forall>j<i. fst (its ! j) \<noteq> k" "od_set k v its = its[i := (k, v)]" by blast
    from False i(4) have "od_set k v (x # its) = (x # its)[Suc i := (k, v)]" by (cases x) simp
    moreover have "\<forall>j<Suc i. fst ((x # its) ! j) \<noteq> k"
      using False i(3) by (auto simp: nth_Cons split: nat.splits)
    ultimately show ?thesis using i(1,2) by (intro exI [of _ "Suc i"]) simp
  qed
qed

lemma map_of_od_set: "map_of (od_set k v its) k = Some v"
  by (induction its) auto

lemma set_od_set: "set (od_set k v its) \<subseteq> insert (k, v) (set its)"
  by (induction its) (auto split: if_splits)

lemma keys_od_set: "fst ` set (od_set k v its) = insert k (fst ` set its)"
  by (induction k v its rule: od_set.induct) (simp_all add: insert_commute)

lemma distinct_od_set: "distinct (map fst its) \<Longrightarrow> distinct (map fst (od_set k v its))"
  by (induction its) (auto simp: keys_od_set)

subsection \<open>One name at a time\<close>

lemma update_single:
  "fs file = Some d \<Longrightarrow>
   update fs (Some [file]) b =
     (b\<lparr>audio_items := od_set (fst (splitext file)) \<lparr>len = int (length d), data = d\<rparr> (audio_items b),
        dirty := True\<rparr>, None)"
  by (simp add: update_def)

lemma empty_single:
  "empty (Some [name]) b =
     b\<lparr>audio_items := od_set (fst (splitext name)) \<lparr>len = 0, data = []\<rparr> (audio_items b),
       dirty := True\<rparr>"
  by (simp add: empty_def)

subsection \<open>Stored data and the length field\<close>

lemma data_ok_od_set: "data_ok its \<Longrightarrow> int (length (data v)) = len v \<Longrightarrow> data_ok (od_set k v its)"
  using set_od_set [of k v its] by (auto simp: data_ok_def)

lemma blank_ok_od_set: "blank_ok its \<Longrightarrow> data v = [] \<Longrightarrow> fits_u32 (len v) \<Longrightarrow> blank_ok (od_set k v its)"
  using set_od_set [of k v its] by (auto simp: blank_ok_def)

lemma words_of_nth_fits: "i < length (words_of bs) \<Longrightarrow> fits_u32 (words_of bs ! i)"
  using words_of_fits [of bs] by (simp add: list_all_length)

lemma didx_loop_blank:
  "didx_loop n its f = Inr (its', f') \<Longrightarrow> blank_ok its \<Longrightarrow> blank_ok its'"
proof (induction n arbitrary: its f)
  case 0
  then show ?case by simp
next
  case (Suc n)
  from Suc.prems(1) obtain ws where ws: "unpack 3 (take 12 f) = Inr ws"
    and rec: "didx_loop n (od_set (str (ws ! 0)) \<lparr>len = ws ! 2, data = []\<rparr> its) (drop 12 f) = Inr (its', f')"
    by (auto split: sum.splits)
  from ws have "length ws = 3" by (auto simp: unpack_Inr_iff length_words_of)
  with ws have "fits_u32 (ws ! 2)" by (auto simp: unpack_Inr_iff intro: words_of_nth_fits)
  with Suc.prems(2) have "blank_ok (od_set (str (ws ! 0)) \<lparr>len = ws ! 2, data = []\<rparr> its)"
    by (intro blank_ok_od_set) simp_all
  from Suc.IH [OF rec this] show ?case .
qed

lemma data_loop_data_ok:
  "data_loop its padding f = Inr (its', f') \<Longrightarrow> blank_ok its \<Longrightarrow> data_ok its'"
proof (induction its arbitrary: padding f its' f')
  case Nil
  then show ?case by (simp add: data_ok_def)
next
  case (Cons x its)
  obtain k a where x: "x = (k, a)" by (cases x)
  let ?f1 = "drop (nat padding) f"
  from Cons.prems(1) x obtain r f'' where
    enough: "\<not> length ?f1 < nat (len a)"
    and rec: "data_loop its ((- len a) mod 16) (drop (nat (len a)) ?f1) = Inr (r, f'')"
    and res: "its' = (k, a\<lparr>data := data a @ take (nat (len a)) ?f1\<rparr>) # r"
    by (auto simp: Let_def split: if_splits sum.splits)
  from Cons.prems(2) x have a: "data a = []" "0 \<le> len a" and rest: "blank_ok its"
    by (auto simp: blank_ok_def fits_u32_def)
  from Cons.IH [OF rec rest] have "data_ok r" .
  moreover from enough a have "int (length (data a @ take (nat (len a)) ?f1)) = len a" by simp
  ultimately show ?case unfolding res by (simp add: data_ok_def)
qed

lemma parse_data_ok: "parse file = Inr b \<Longrightarrow> data_ok (audio_items b)"
proof -
  assume "parse file = Inr b"
  then obtain n f its f2 f3 where "didx_loop n [] f = Inr (its, f2)"
    and "data_loop its 0 f3 = Inr (audio_items b, trailing_data b)"
    by (auto simp: parse_def split: sum.splits prod.splits if_splits)
  moreover have "blank_ok []" by (simp add: blank_ok_def)
  ultimately show ?thesis using didx_loop_blank data_loop_data_ok by blast
qed

lemma update_loop_data_ok:
  "update_loop fs files b = (b', r) \<Longrightarrow> data_ok (audio_items b) \<Longrightarrow> data_ok (audio_items b')"
proof (induction files arbitrary: b)
  case Nil
  then show ?case by simp
next
  case (Cons fl files)
  show ?case
  proof (cases "fs fl")
    case None
    with Cons.prems show ?thesis by simp
  next
    case (Some d)
    let ?b = "b\<lparr>audio_items := od_set (fst (splitext fl)) \<lparr>len = int (length d), data = d\<rparr> (audio_items b),
                 dirty := True\<rparr>"
    from Cons.prems(1) Some have "update_loop fs files ?b = (b', r)" by simp
    moreover from Cons.prems(2) have "data_ok (audio_items ?b)" by (simp add: data_ok_od_set)
    ultimately show ?thesis by (rule Cons.IH)
  qed
qed

lemma empty_loop_data_ok:
  "data_ok (audio_items b) \<Longrightarrow> data_ok (audio_items (empty_loop names b))"
  by (induction names arbitrary: b) (simp_all add: data_ok_od_set)

lemma reachable_data_ok: "reachable b \<Longrightarrow> data_ok (audio_items b)"
proof (induction rule: reachable.induct)
  case (reach_parse fl b)
  then show ?case by (rule parse_data_ok)
next
  case (reach_update b fs to_update b' r)
  then show ?case by (cases to_update) (auto simp: update_def dest: update_loop_data_ok)
next
  case (reach_empty b to_remove b')
  then show ?case by (auto simp: empty_def intro: empty_loop_data_ok)
qed

subsection \<open>Chunk descriptors and the header\<close>

lemma split8:
  assumes "8 \<le> length (f :: 'a list)"
  obtains a b c d e g h i r where "f = a # b # c # d # e # g # h # i # r"
proof -
  from assms have "f = take 8 f @ drop 8 f" "length (take 8 f) = 8" by simp_all
  then obtain p r where f: "f = p @ r" and p: "length p = 8" by blast
  from p obtain a b c d e g h i where "p = [a, b, c, d, e, g, h, i]"
    by (auto simp: length_Suc_conv eval_nat_numeral)
  with f that show ?thesis by simp
qed

lemma unpack_two:
  assumes "8 \<le> length f"
  shows "unpack 2 (take 8 f) = Inr [le_int (take 4 f), le_int (take 4 (drop 4 f))]"
proof -
  from assms obtain a b c d e g h i r where "f = a # b # c # d # e # g # h # i # r"
    by (rule split8)
  then show ?thesis by (simp add: unpack_def)
qed

lemma unpack_two_bytes:
  "fits_u32 m \<Longrightarrow> fits_u32 l \<Longrightarrow> unpack 2 (take 8 (le_bytes m @ le_bytes l @ rest)) = Inr [m, l]"
  using words_of_concat [of "[m, l]" "[]"] by (simp add: unpack_def)

lemma hdr_loop_consumes:
  "hdr_loop h pos f = Inr (h', f') \<Longrightarrow>
   \<exists>c. f = c @ f' \<and> (\<forall>g. hdr_loop h pos (c @ g) = Inr (h', g))"
proof (induction h pos f rule: hdr_loop.induct)
  case (1 hdr current_pos f)
  from "1.prems" have len: "\<not> length hdr < 2"
    by (subst (asm) hdr_loop.simps) (simp split: if_splits)
  show ?case
  proof (cases "current_pos < hdr ! 1 + 8")
    case False
    with len "1.prems" have "h' = hdr" "f' = f"
      by (subst (asm) hdr_loop.simps, simp)+
    with len False show ?thesis
      by (intro exI [of _ "[]"]) (simp add: hdr_loop.simps)
  next
    case True
    with len "1.prems" obtain ws where ws: "unpack 1 (take 4 f) = Inr ws"
      and rec: "hdr_loop (hdr @ ws) (current_pos + 4) (drop 4 f) = Inr (h', f')"
      by (subst (asm) hdr_loop.simps) (auto split: sum.splits)
    from ws have l4: "length (take 4 f) = 4" by (simp add: unpack_Inr_iff)
    from "1.IH" [OF len True ws rec] obtain c where c: "drop 4 f = c @ f'"
      and all: "\<forall>g. hdr_loop (hdr @ ws) (current_pos + 4) (c @ g) = Inr (h', g)" by blast
    have f: "f = (take 4 f @ c) @ f'" using c by (metis append_assoc append_take_drop_id)
    have "hdr_loop hdr current_pos ((take 4 f @ c) @ g) = Inr (h', g)" for g
      using len True ws all l4 by (subst hdr_loop.simps) simp
    with f show ?thesis by blast
  qed
qed

lemma read_header_consumes:
  assumes "read_header f = Inr (h', f')"
  shows "\<exists>c. f = c @ f' \<and> (\<forall>g. read_header (c @ g) = Inr (h', g))"
proof -
  from assms obtain ws where ws: "unpack 4 (take 16 f) = Inr ws"
    and loop: "hdr_loop ([] @ ws) 16 (drop 16 f) = Inr (h', f')"
    by (auto simp: read_header_def split: sum.splits)
  from ws have l16: "length (take 16 f) = 16" by (simp add: unpack_Inr_iff)
  from hdr_loop_consumes [OF loop] obtain c where c: "drop 16 f = c @ f'"
    and all: "\<forall>g. hdr_loop ([] @ ws) 16 (c @ g) = Inr (h', g)" by blast
  have f: "f = (take 16 f @ c) @ f'" using c by (metis append_assoc append_take_drop_id)
  have "read_header ((take 16 f @ c) @ g) = Inr (h', g)" for g
    using ws all l16 by (simp add: read_header_def)
  with f show ?thesis by blast
qed

lemma read_header_same_prefix:
  assumes "read_header (pre @ x) = Inr (h', x)"
  shows "read_header (pre @ y) = Inr (h', y)"
proof -
  from read_header_consumes [OF assms] obtain c where c: "pre @ x = c @ x"
    and all: "\<forall>g. read_header (c @ g) = Inr (h', g)" by blast
  from c have "pre = c" by simp
  with all show ?thesis by simp
qed

subsection \<open>Rounding up to a multiple of 16\<close>

lemma and_not_15: "(x :: int) AND NOT 15 = 16 * (x div 16)"
proof -
  have "(15 :: int) = mask 4" by (simp add: mask_eq_exp_minus_1)
  moreover have "x AND NOT (mask 4) = push_bit 4 (drop_bit 4 x)"
    by (rule bit_eqI) (auto simp: bit_simps)
  ultimately show ?thesis by (simp only: push_bit_eq_mult drop_bit_eq_div) simp
qed

lemma round_up16_eq: "round_up16 x = x + (- x) mod 16"
proof -
  define r where "r = (- x) mod 16"
  define q where "q = (- x) div 16"
  have r: "0 \<le> r" "r < 16" by (simp_all add: r_def)
  have x: "- x = 16 * q + r" by (simp add: r_def q_def)
  then have "x + 15 = (- q) * 16 + (15 - r)" by simp
  then have "(x + 15) div 16 = ((15 - r) + (- q) * 16) div 16" by (simp add: add.commute)
  also have "\<dots> = (- q) + (15 - r) div 16" by (rule div_mult_self1) simp
  also have "(15 - r) div 16 = 0" using r by simp
  finally have "16 * ((x + 15) div 16) = - 16 * q" by simp
  with x show ?thesis unfolding r_def round_up16_def by linarith
qed

lemma code_round_up16: "((x :: int) + 15) AND NOT 15 = round_up16 x"
  by (simp only: and_not_15 round_up16_def)

subsection \<open>The outcomes of \<open>to_file\<close>\<close>

lemma write_index_Inr:
  "write_index its offset padding = (ib, Inr p) \<Longrightarrow>
   length ib = 12 * length its \<and>
   p = (if its = [] then padding else Some ((- len (snd (last its))) mod 16))"
proof (induction its arbitrary: offset padding ib)
  case Nil
  then show ?case by auto
next
  case (Cons x its)
  obtain k a where x: "x = (k, a)" by (cases x)
  from Cons.prems x obtain i bs ib' where i: "py_int k = Inr i"
    and bs: "pack [i, offset, len a] = Inr bs"
    and rec: "write_index its (offset + (len a + (- len a) mod 16)) (Some ((- len a) mod 16)) = (ib', Inr p)"
    and ib: "ib = bs @ ib'"
    by (auto simp: Let_def split: sum.splits prod.splits)
  from bs have "length bs = 12" by (auto simp: pack_Inr_iff)
  with Cons.IH [OF rec] ib x show ?case by auto
qed

lemma fits_magic [simp]: "fits_u32 MAGIC_DIDX" "fits_u32 MAGIC_AUDIO"
  by (simp_all add: fits_u32_def MAGIC_DIDX_def MAGIC_AUDIO_def)

text \<open>The ways \<open>to_file\<close> can end, in the order of the code.\<close>

lemma to_file_bad_header:
  "\<not> list_all fits_u32 (header b) \<Longrightarrow> snd (to_file b) = Some StructError"
  by (simp add: to_file_def write_header_eq)

lemma to_file_bad_count:
  "list_all fits_u32 (header b) \<Longrightarrow> \<not> fits_u32 (int (length (audio_items b)) * 12) \<Longrightarrow>
   snd (to_file b) = Some StructError"
  by (simp add: to_file_def write_header_fits pack_def)

lemma to_file_index_error:
  "list_all fits_u32 (header b) \<Longrightarrow> fits_u32 (int (length (audio_items b)) * 12) \<Longrightarrow>
   write_index (audio_items b) 0 None = (ib, Inl e) \<Longrightarrow>
   to_file b =
     (concat (map le_bytes (header b)) @ (le_bytes MAGIC_DIDX @
        le_bytes (int (length (audio_items b)) * 12)) @ ib, Some e)"
  by (simp add: to_file_def write_header_fits pack_def)

lemma to_file_unbound:
  "list_all fits_u32 (header b) \<Longrightarrow> fits_u32 (int (length (audio_items b)) * 12) \<Longrightarrow>
   write_index (audio_items b) 0 None = (ib, Inr None) \<Longrightarrow>
   snd (to_file b) = Some UnboundLocalError"
  by (simp add: to_file_def write_header_fits pack_def)

lemma to_file_bad_length:
  "list_all fits_u32 (header b) \<Longrightarrow> fits_u32 (int (length (audio_items b)) * 12) \<Longrightarrow>
   write_index (audio_items b) 0 None = (ib, Inr (Some p)) \<Longrightarrow>
   \<not> fits_u32 (sum_list (map (\<lambda>(key, audio). (len audio + 15) AND NOT 15) (audio_items b)) - p) \<Longrightarrow>
   snd (to_file b) = Some StructError"
  by (simp add: to_file_def write_header_fits pack_def)

lemma to_file_ok:
  "list_all fits_u32 (header b) \<Longrightarrow> fits_u32 (int (length (audio_items b)) * 12) \<Longrightarrow>
   write_index (audio_items b) 0 None = (ib, Inr (Some p)) \<Longrightarrow>
   fits_u32 (sum_list (map (\<lambda>(key, audio). (len audio + 15) AND NOT 15) (audio_items b)) - p) \<Longrightarrow>
   to_file b =
     (concat (map le_bytes (header b)) @ le_bytes MAGIC_DIDX @
      le_bytes (int (length (audio_items b)) * 12) @ ib @ le_bytes MAGIC_AUDIO @
      le_bytes (sum_list (map (\<lambda>(key, audio). (len audio + 15) AND NOT 15) (audio_items b)) - p) @
      write_data (audio_items b) 0 @ trailing_data b, None)"
  by (simp add: to_file_def write_header_fits pack_def)

lemma to_file_success:
  assumes "to_file b = (out, None)"
  obtains ib p where
    "list_all fits_u32 (header b)"
    "fits_u32 (int (length (audio_items b)) * 12)"
    "write_index (audio_items b) 0 None = (ib, Inr (Some p))"
    "fits_u32 (sum_list (map (\<lambda>(key, audio). (len audio + 15) AND NOT 15) (audio_items b)) - p)"
    "out = concat (map le_bytes (header b)) @ le_bytes MAGIC_DIDX @
           le_bytes (int (length (audio_items b)) * 12) @ ib @ le_bytes MAGIC_AUDIO @
           le_bytes (sum_list (map (\<lambda>(key, audio). (len audio + 15) AND NOT 15) (audio_items b)) - p) @
           write_data (audio_items b) 0 @ trailing_data b"
proof -
  from assms have ok: "snd (to_file b) = None" by simp
  have h: "list_all fits_u32 (header b)"
    using ok to_file_bad_header [of b] by auto
  have n: "fits_u32 (int (length (audio_items b)) * 12)"
    using ok h to_file_bad_count [of b] by auto
  obtain ib r where wi: "write_index (audio_items b) 0 None = (ib, r)" by (cases "write_index (audio_items b) 0 None")
  have "\<exists>p. r = Inr (Some p)"
  proof (cases r)
    case (Inl e)
    with to_file_index_error [OF h n, of ib e] wi ok show ?thesis by simp
  next
    case (Inr po)
    with to_file_unbound [OF h n, of ib] wi ok show ?thesis by (cases po) auto
  qed
  then obtain p where p: "write_index (audio_items b) 0 None = (ib, Inr (Some p))" using wi by auto
  have l: "fits_u32 (sum_list (map (\<lambda>(key, audio). (len audio + 15) AND NOT 15) (audio_items b)) - p)"
    using ok to_file_bad_length [OF h n p] by auto
  from to_file_ok [OF h n p l] assms that [OF h n p l] show ?thesis by simp
qed

subsection \<open>The payload region\<close>


lemma code_sum_round_up:
  "sum_list (map (\<lambda>(key, audio). (len audio + 15) AND NOT 15) its) =
   sum_list (map round_up16 (map (\<lambda>(k, a). len a) its))"
proof (induction its)
  case Nil
  then show ?case by simp
next
  case (Cons x its)
  have "(len (snd x) + 15) AND NOT 15 = round_up16 (len (snd x))" by (rule code_round_up16)
  then have "(len (snd x) + 15) AND - 16 = round_up16 (len (snd x))" by simp
  with Cons show ?case by (simp add: case_prod_unfold)
qed

subsection \<open>Decimal strings: \<open>int(str(n)) = n\<close>\<close>

lemma of_char_digit_char: "d < 10 \<Longrightarrow> (of_char (digit_char d) :: nat) = 48 + d"
  by (simp add: digit_char_def)

lemma is_digit_digit_char: "d < 10 \<Longrightarrow> is_digit (digit_char d)"
  by (simp add: is_digit_def of_char_digit_char)

lemma digit_val_digit_char: "d < 10 \<Longrightarrow> digit_val (digit_char d) = int d"
  by (simp add: digit_val_def of_char_digit_char)

lemma is_digit_not_space: "is_digit c \<Longrightarrow> \<not> is_space c"
  by (auto simp: is_digit_def is_space_def)

lemma is_digit_not_sign: "is_digit c \<Longrightarrow> c \<noteq> CHR ''-'' \<and> c \<noteq> CHR ''+'' \<and> c \<noteq> CHR ''_''"
  by (auto simp: is_digit_def)

lemma str_nat_digits: "list_all is_digit (str_nat n) \<and> str_nat n \<noteq> []"
proof (induction n rule: str_nat.induct)
  case (1 n)
  show ?case
  proof (cases "n < 10")
    case True
    then show ?thesis by (subst (1 2) str_nat.simps) (simp add: is_digit_digit_char)
  next
    case False
    with 1 show ?thesis by (subst (1 2) str_nat.simps) (simp add: is_digit_digit_char)
  qed
qed

lemma str_nat_value: "foldl (\<lambda>a c. 10 * a + digit_val c) 0 (str_nat n) = int n"
proof (induction n rule: str_nat.induct)
  case (1 n)
  show ?case
  proof (cases "n < 10")
    case True
    then show ?thesis by (subst str_nat.simps) (simp add: digit_val_digit_char)
  next
    case False
    with 1 have "foldl (\<lambda>a c. 10 * a + digit_val c) 0 (str_nat (n div 10)) = int (n div 10)" by simp
    with False show ?thesis
      by (subst str_nat.simps) (simp add: digit_val_digit_char zdiv_int zmod_int)
  qed
qed

lemma digits_value_digits:
  "list_all is_digit ds \<Longrightarrow>
   digits_value acc prev ds =
     (if ds = [] then (if prev then Some acc else None)
      else Some (foldl (\<lambda>a c. 10 * a + digit_val c) acc ds))"
  by (induction ds arbitrary: acc prev) simp_all

lemma strip_digits:
  assumes "list_all is_digit ds"
  shows "strip ds = ds"
proof (cases ds)
  case Nil
  then show ?thesis by (simp add: strip_def)
next
  case (Cons c cs)
  with assms have "\<not> is_space c" by (simp add: is_digit_not_space)
  with Cons have 1: "dropWhile is_space ds = ds" by simp
  from assms Cons have "ds \<noteq> []" "\<not> is_space (last ds)"
    by (auto simp: list_all_iff is_digit_not_space)
  then have "dropWhile is_space (rev ds) = rev ds"
    by (cases "rev ds") (auto simp: last_rev [symmetric] simp del: last_rev)
  with 1 show ?thesis by (simp add: strip_def)
qed

lemma py_int_str_nat: "py_int (str_nat n) = Inr (int n)"
proof -
  have d: "list_all is_digit (str_nat n)" and ne: "str_nat n \<noteq> []"
    using str_nat_digits [of n] by simp_all
  from ne obtain c cs where c: "str_nat n = c # cs" by (cases "str_nat n") auto
  with d have "is_digit c" by simp
  then have s: "c \<noteq> CHR ''-''" "c \<noteq> CHR ''+''" using is_digit_not_sign by blast+
  have "digits_value 0 False (str_nat n) = Some (int n)"
    using ne by (simp add: digits_value_digits [OF d] str_nat_value)
  then have dv: "digits_value 0 False (c # cs) = Some (int n)" unfolding c .
  have st: "strip (c # cs) = c # cs" using strip_digits [OF d] unfolding c .
  have "py_int (c # cs) = Inr (int n)"
    using s by (simp add: py_int_def st dv del: digits_value.simps)
  then show ?thesis unfolding c .
qed

lemma py_int_str: "0 \<le> v \<Longrightarrow> py_int (str v) = Inr v"
  by (simp add: str_def py_int_str_nat)

subsection \<open>What \<open>parse\<close> guarantees\<close>

lemma hdr_loop_words:
  "hdr_loop h pos f = Inr (h', f') \<Longrightarrow>
   \<exists>ws. h' = h @ ws \<and> f = concat (map le_bytes ws) @ f'"
proof (induction h pos f rule: hdr_loop.induct)
  case (1 hdr current_pos f)
  from "1.prems" have len: "\<not> length hdr < 2"
    by (subst (asm) hdr_loop.simps) (simp split: if_splits)
  show ?case
  proof (cases "current_pos < hdr ! 1 + 8")
    case False
    with len "1.prems" have "h' = hdr" "f' = f"
      by (subst (asm) hdr_loop.simps, simp)+
    then show ?thesis by simp
  next
    case True
    with len "1.prems" obtain ws where ws: "unpack 1 (take 4 f) = Inr ws"
      and rec: "hdr_loop (hdr @ ws) (current_pos + 4) (drop 4 f) = Inr (h', f')"
      by (subst (asm) hdr_loop.simps) (auto split: sum.splits)
    from ws have enc: "concat (map le_bytes ws) = take 4 f"
      by (auto simp: unpack_Inr_iff intro: concat_words_of [of _ 1])
    from "1.IH" [OF len True ws rec] obtain ws' where h': "h' = (hdr @ ws) @ ws'"
      and d: "drop 4 f = concat (map le_bytes ws') @ f'" by blast
    have "f = take 4 f @ drop 4 f" by simp
    with d enc have "f = concat (map le_bytes (ws @ ws')) @ f'" by simp
    with h' show ?thesis by (intro exI [of _ "ws @ ws'"]) simp
  qed
qed

lemma read_header_encoded:
  assumes "read_header f = Inr (h', f')"
  shows "read_header (concat (map le_bytes h') @ g) = Inr (h', g)"
proof -
  from assms obtain ws where ws: "unpack 4 (take 16 f) = Inr ws"
    and loop: "hdr_loop ([] @ ws) 16 (drop 16 f) = Inr (h', f')"
    by (auto simp: read_header_def split: sum.splits)
  from ws have enc: "concat (map le_bytes ws) = take 16 f"
    by (auto simp: unpack_Inr_iff intro: concat_words_of [of _ 4])
  from hdr_loop_words [OF loop] obtain ws' where h': "h' = ws @ ws'"
    and d: "drop 16 f = concat (map le_bytes ws') @ f'" by auto
  have "f = take 16 f @ drop 16 f" by simp
  with d enc have f: "f = concat (map le_bytes h') @ f'" by (simp add: h')
  from read_header_consumes [OF assms] obtain c where c: "f = c @ f'"
    and all: "\<forall>g. read_header (c @ g) = Inr (h', g)" by blast
  from f c have "c = concat (map le_bytes h')" by simp
  with all show ?thesis by simp
qed

lemma keys_ok_od_set:
  "keys_ok its \<Longrightarrow> fits_u32 v \<Longrightarrow> keys_ok (od_set (str v) a its)"
  unfolding keys_ok_def by (auto simp: distinct_od_set keys_od_set)

lemma didx_loop_keys_ok:
  "didx_loop n its f = Inr (its', f') \<Longrightarrow> keys_ok its \<Longrightarrow> keys_ok its'"
proof (induction n arbitrary: its f)
  case 0
  then show ?case by simp
next
  case (Suc n)
  from Suc.prems(1) obtain ws where ws: "unpack 3 (take 12 f) = Inr ws"
    and rec: "didx_loop n (od_set (str (ws ! 0)) \<lparr>len = ws ! 2, data = []\<rparr> its) (drop 12 f) = Inr (its', f')"
    by (auto split: sum.splits)
  from ws have "length ws = 3" by (auto simp: unpack_Inr_iff length_words_of)
  with ws have "fits_u32 (ws ! 0)" by (auto simp: unpack_Inr_iff intro: words_of_nth_fits)
  with Suc.prems(2) have "keys_ok (od_set (str (ws ! 0)) \<lparr>len = ws ! 2, data = []\<rparr> its)"
    by (rule keys_ok_od_set)
  from Suc.IH [OF rec this] show ?case .
qed

lemma data_loop_keys:
  "data_loop its padding f = Inr (its', f') \<Longrightarrow> map blank its' = map blank its"
proof (induction its arbitrary: padding f its' f')
  case Nil
  then show ?case by simp
next
  case (Cons x its)
  obtain k a where x: "x = (k, a)" by (cases x)
  let ?f1 = "drop (nat padding) f"
  from Cons.prems(1) x obtain r f'' where
    rec: "data_loop its ((- len a) mod 16) (drop (nat (len a)) ?f1) = Inr (r, f'')"
    and res: "its' = (k, a\<lparr>data := data a @ take (nat (len a)) ?f1\<rparr>) # r"
    by (auto simp: Let_def split: if_splits sum.splits)
  from Cons.IH [OF rec] x res show ?case by (simp add: blank_def)
qed

lemma map_fst_blank: "map fst (map blank its) = map fst its"
  by (simp add: blank_def comp_def)

lemma parse_keys_ok: "parse f = Inr b \<Longrightarrow> keys_ok (audio_items b)"
proof -
  assume "parse f = Inr b"
  then obtain n g its f2 f3 where "didx_loop n [] g = Inr (its, f2)"
    and dl: "data_loop its 0 f3 = Inr (audio_items b, trailing_data b)"
    by (auto simp: parse_def split: sum.splits prod.splits if_splits)
  moreover have "keys_ok []" by (simp add: keys_ok_def)
  ultimately have k: "keys_ok its" using didx_loop_keys_ok by blast
  from data_loop_keys [OF dl] have "map fst (map blank (audio_items b)) = map fst (map blank its)"
    by simp
  then have "map fst (audio_items b) = map fst its" by (simp only: map_fst_blank)
  then have "fst ` set (audio_items b) = fst ` set its" by (metis set_map)
  with k \<open>map fst (audio_items b) = map fst its\<close> show ?thesis by (simp add: keys_ok_def)
qed

lemma parse_clean: "parse f = Inr b \<Longrightarrow> dirty b = False"
  by (auto simp: parse_def split: sum.splits prod.splits if_splits)

lemma parse_header: "parse f = Inr b \<Longrightarrow> \<exists>f1. read_header f = Inr (header b, f1)"
  by (auto simp: parse_def split: sum.splits prod.splits if_splits)

subsection \<open>Reading back what \<open>to_file\<close> wrote\<close>

lemma unpack_three_bytes:
  "fits_u32 a \<Longrightarrow> fits_u32 b \<Longrightarrow> fits_u32 c \<Longrightarrow>
   unpack 3 (take 12 ((le_bytes a @ le_bytes b @ le_bytes c) @ rest)) = Inr [a, b, c]"
  using words_of_concat [of "[a, b, c]" "[]"] by (simp add: unpack_def)

lemma didx_loop_write_index:
  "write_index its offset padding = (ib, Inr r) \<Longrightarrow> keys_ok (acc @ its) \<Longrightarrow>
   didx_loop (length its) acc (ib @ rest) = Inr (acc @ map blank its, rest)"
proof (induction its arbitrary: offset padding ib acc)
  case Nil
  then show ?case by simp
next
  case (Cons x its)
  obtain k a where x: "x = (k, a)" by (cases x)
  from Cons.prems(1) x obtain i bs ib' where i: "py_int k = Inr i"
    and bs: "pack [i, offset, len a] = Inr bs"
    and rec: "write_index its (offset + (len a + (- len a) mod 16)) (Some ((- len a) mod 16)) = (ib', Inr r)"
    and ib: "ib = bs @ ib'"
    by (auto simp: Let_def split: sum.splits prod.splits)
  from bs have fits: "fits_u32 i" "fits_u32 offset" "fits_u32 (len a)"
    and bs': "bs = le_bytes i @ le_bytes offset @ le_bytes (len a)"
    by (auto simp: pack_Inr_iff)
  from Cons.prems(2) x obtain v where v: "fits_u32 v" "k = str v"
    by (auto simp: keys_ok_def)
  with i have "i = v" by (simp add: py_int_str fits_u32_def)
  with v have k: "str i = k" by simp
  from Cons.prems(2) x have fresh: "k \<notin> fst ` set acc" by (auto simp: keys_ok_def)
  have step: "od_set (str i) \<lparr>len = len a, data = []\<rparr> acc = acc @ [blank x]"
    unfolding k using fresh x by (simp add: od_set_absent blank_def)
  from Cons.prems(2) have "keys_ok ((acc @ [blank x]) @ its)"
    by (simp add: keys_ok_def blank_def x)
  from Cons.IH [OF rec this, of ] have
    "didx_loop (length its) (acc @ [blank x]) (ib' @ rest) = Inr ((acc @ [blank x]) @ map blank its, rest)" .
  moreover have "unpack 3 (take 12 ((bs @ ib') @ rest)) = Inr [i, offset, len a]"
    unfolding bs' using unpack_three_bytes [OF fits, of "ib' @ rest"] by simp
  moreover have "drop 12 ((bs @ ib') @ rest) = ib' @ rest"
    unfolding bs' by simp
  ultimately show ?case
    unfolding ib by (simp add: step del: append_assoc)
qed

lemma data_loop_write_data:
  "data_ok its \<Longrightarrow> 0 \<le> p \<Longrightarrow>
   data_loop (map blank its) p (write_data its p @ rest) = Inr (its, rest)"
proof (induction its arbitrary: p)
  case Nil
  then show ?case by simp
next
  case (Cons x its)
  obtain k a where x: "x = (k, a)" by (cases x)
  from Cons.prems(1) x have a: "int (length (data a)) = len a" and rest: "data_ok its"
    by (simp_all add: data_ok_def)
  from a have n: "nat (len a) = length (data a)" by simp
  have "0 \<le> (- len a) mod 16" by simp
  from Cons.IH [OF rest this] have
    "data_loop (map blank its) ((- len a) mod 16) (write_data its ((- len a) mod 16) @ rest) = Inr (its, rest)" .
  moreover have "blank (k, a) = (k, \<lparr>len = len a, data = []\<rparr>)" by (simp add: blank_def)
  ultimately show ?case
    using Cons.prems(2) by (simp add: x n Let_def)
qed

lemma roundtrip:
  assumes p: "parse f = Inr b" and t: "to_file b = (out, None)"
  shows "parse out = Inr b"
proof -
  let ?its = "audio_items b"
  let ?L = "sum_list (map (\<lambda>(key, audio). (len audio + 15) AND NOT 15) ?its)"
  from t obtain ib pd where
    n: "fits_u32 (int (length ?its) * 12)"
    and wi: "write_index ?its 0 None = (ib, Inr (Some pd))"
    and fl: "fits_u32 (?L - pd)"
    and out: "out = concat (map le_bytes (header b)) @ le_bytes MAGIC_DIDX @
           le_bytes (int (length ?its) * 12) @ ib @ le_bytes MAGIC_AUDIO @
           le_bytes (?L - pd) @ write_data ?its 0 @ trailing_data b"
    by (rule to_file_success)
  from parse_header [OF p] obtain f1 where "read_header f = Inr (header b, f1)" ..
  note rh = read_header_encoded [OF this]
  have ko: "keys_ok ([] @ ?its)" using parse_keys_ok [OF p] by simp
  have dk: "data_ok ?its" using p by (rule parse_data_ok)
  define lv where "lv = ?L - pd"
  define r3 where "r3 = write_data ?its 0 @ trailing_data b"
  define r2 where "r2 = le_bytes MAGIC_AUDIO @ le_bytes lv @ r3"
  define r1 where "r1 = le_bytes MAGIC_DIDX @ le_bytes (int (length ?its) * 12) @ ib @ r2"
  have 1: "read_header out = Inr (header b, r1)"
    unfolding out r1_def r2_def r3_def lv_def by (rule rh)
  have 2: "unpack 2 (take 8 r1) = Inr [MAGIC_DIDX, int (length ?its) * 12]"
    unfolding r1_def by (rule unpack_two_bytes) (rule fits_magic, rule n)
  have 3: "drop 8 r1 = ib @ r2" unfolding r1_def by simp
  have 4: "didx_loop (length ?its) [] (ib @ r2) = Inr (map blank ?its, r2)"
    using didx_loop_write_index [OF wi ko, of r2] by simp
  have 5: "unpack 2 (take 8 r2) = Inr [MAGIC_AUDIO, lv]"
    unfolding r2_def lv_def by (rule unpack_two_bytes) (rule fits_magic, rule fl)
  have 6: "drop 8 r2 = r3" unfolding r2_def by simp
  have 7: "data_loop (map blank ?its) 0 r3 = Inr (?its, trailing_data b)"
    unfolding r3_def using dk by (rule data_loop_write_data) simp
  have "parse out = Inr \<lparr>header = header b, audio_items = ?its,
      trailing_data = trailing_data b, dirty = False\<rparr>"
    unfolding parse_def by (simp add: 1 2 3 4 5 6 7)
  also have "\<lparr>header = header b, audio_items = ?its,
      trailing_data = trailing_data b, dirty = False\<rparr> = b" using parse_clean [OF p] by simp
  finally show ?thesis .
qed

subsection \<open>When \<open>to_file\<close> completes on a parsed bank\<close>

lemma hdr_loop_fits:
  "hdr_loop h pos f = Inr (h', f') \<Longrightarrow> list_all fits_u32 h \<Longrightarrow> list_all fits_u32 h'"
proof (induction h pos f rule: hdr_loop.induct)
  case (1 hdr current_pos f)
  from "1.prems" have len: "\<not> length hdr < 2"
    by (subst (asm) hdr_loop.simps) (simp split: if_splits)
  show ?case
  proof (cases "current_pos < hdr ! 1 + 8")
    case False
    with len "1.prems" have "h' = hdr"
      by (subst (asm) hdr_loop.simps) simp
    with "1.prems" show ?thesis by simp
  next
    case True
    with len "1.prems" obtain ws where ws: "unpack 1 (take 4 f) = Inr ws"
      and rec: "hdr_loop (hdr @ ws) (current_pos + 4) (drop 4 f) = Inr (h', f')"
      by (subst (asm) hdr_loop.simps) (auto split: sum.splits)
    from ws have "list_all fits_u32 ws" by (auto simp: unpack_Inr_iff words_of_fits)
    with "1.prems"(2) have "list_all fits_u32 (hdr @ ws)" by simp
    from "1.IH" [OF len True ws rec this] show ?thesis .
  qed
qed

lemma parse_header_fits: "parse f = Inr b \<Longrightarrow> list_all fits_u32 (header b)"
proof -
  assume "parse f = Inr b"
  from parse_header [OF this] obtain f1 where "read_header f = Inr (header b, f1)" ..
  then obtain ws where ws: "unpack 4 (take 16 f) = Inr ws"
    and loop: "hdr_loop ([] @ ws) 16 (drop 16 f) = Inr (header b, f1)"
    by (auto simp: read_header_def split: sum.splits)
  from ws have "list_all fits_u32 ([] @ ws)" by (auto simp: unpack_Inr_iff words_of_fits)
  with loop show ?thesis by (rule hdr_loop_fits)
qed

lemma length_od_set: "length (od_set k v its) \<le> Suc (length its)"
  by (induction its) auto

lemma didx_loop_length:
  "didx_loop n its f = Inr (its', f') \<Longrightarrow> length its' \<le> length its + n"
proof (induction n arbitrary: its f)
  case 0
  then show ?case by simp
next
  case (Suc n)
  from Suc.prems(1) obtain ws where
    rec: "didx_loop n (od_set (str (ws ! 0)) \<lparr>len = ws ! 2, data = []\<rparr> its) (drop 12 f) = Inr (its', f')"
    by (auto split: sum.splits)
  from Suc.IH [OF rec] length_od_set [of "str (ws ! 0)" "\<lparr>len = ws ! 2, data = []\<rparr>" its]
  show ?case by simp
qed

lemma parse_count_fits:
  assumes "parse f = Inr b"
  shows "fits_u32 (int (length (audio_items b)) * 12)"
proof -
  from assms obtain f1 ml g its f2 f3 where ml: "unpack 2 (take 8 f1) = Inr ml"
    and dl: "didx_loop (nat (ml ! 1 div 12)) [] g = Inr (its, f2)"
    and pl: "data_loop its 0 f3 = Inr (audio_items b, trailing_data b)"
    by (auto simp: parse_def split: sum.splits prod.splits if_splits)
  from ml have "length ml = 2" by (auto simp: unpack_Inr_iff length_words_of)
  with ml have l: "fits_u32 (ml ! 1)" by (auto simp: unpack_Inr_iff intro: words_of_nth_fits)
  from data_loop_keys [OF pl] have "length (map blank (audio_items b)) = length (map blank its)"
    by simp
  then have "length (audio_items b) = length its" by simp
  with didx_loop_length [OF dl] have "length (audio_items b) \<le> nat (ml ! 1 div 12)" by simp
  moreover have "0 \<le> ml ! 1 div 12" using l by (simp add: fits_u32_def pos_imp_zdiv_nonneg_iff)
  ultimately have "int (length (audio_items b)) \<le> ml ! 1 div 12" by linarith
  moreover have "ml ! 1 div 12 * 12 + ml ! 1 mod 12 = ml ! 1" by simp
  moreover have "0 \<le> ml ! 1 mod 12" by simp
  ultimately show ?thesis using l unfolding fits_u32_def by linarith
qed

lemma parse_lens_fit:
  assumes "parse f = Inr b"
  shows "\<forall>(k, a) \<in> set (audio_items b). fits_u32 (len a)"
proof -
  from assms obtain n g its f2 f3 where dl: "didx_loop n [] g = Inr (its, f2)"
    and pl: "data_loop its 0 f3 = Inr (audio_items b, trailing_data b)"
    by (auto simp: parse_def split: sum.splits prod.splits if_splits)
  have "blank_ok []" by (simp add: blank_ok_def)
  with dl have bo: "blank_ok its" by (rule didx_loop_blank)
  show ?thesis
  proof (clarify)
    fix k a assume "(k, a) \<in> set (audio_items b)"
    then have "blank (k, a) \<in> set (map blank (audio_items b))" by (metis image_eqI set_map)
    with data_loop_keys [OF pl] have "blank (k, a) \<in> blank ` set its" by simp
    then obtain k' a' where "(k', a') \<in> set its" "blank (k', a') = blank (k, a)" by auto
    with bo show "fits_u32 (len a)" by (auto simp: blank_ok_def blank_def)
  qed
qed

lemma round_up16_ge: "x \<le> round_up16 x"
  by (simp add: round_up16_eq)

lemma spec_payload_length_Cons:
  "lens \<noteq> [] \<Longrightarrow> spec_payload_length (x # lens) = round_up16 x + spec_payload_length lens"
  by (simp add: spec_payload_length_def)

lemma spec_payload_length_nonneg:
  "lens \<noteq> [] \<Longrightarrow> \<forall>x \<in> set lens. 0 \<le> x \<Longrightarrow> 0 \<le> spec_payload_length lens"
proof (induction lens)
  case Nil
  then show ?case by simp
next
  case (Cons x lens)
  show ?case
  proof (cases "lens = []")
    case True
    with Cons.prems show ?thesis by (simp add: spec_payload_length_def round_up16_eq)
  next
    case False
    with Cons have "0 \<le> spec_payload_length lens" by simp
    moreover from Cons.prems have "0 \<le> round_up16 x" using round_up16_ge [of x] by simp
    ultimately show ?thesis using False by (simp add: spec_payload_length_Cons)
  qed
qed

lemma write_index_ok:
  "its \<noteq> [] \<Longrightarrow> \<forall>k \<in> fst ` set its. \<exists>v. fits_u32 v \<and> k = str v \<Longrightarrow>
   \<forall>(k, a) \<in> set its. fits_u32 (len a) \<Longrightarrow> 0 \<le> offset \<Longrightarrow>
   offset + spec_payload_length (map (\<lambda>(k, a). len a) its) < 4294967296 \<Longrightarrow>
   \<exists>ib r. write_index its offset padding = (ib, Inr r)"
proof (induction its arbitrary: offset padding)
  case Nil
  then show ?case by simp
next
  case (Cons x its)
  obtain k a where x: "x = (k, a)" by (cases x)
  from Cons.prems(2) x obtain v where v: "fits_u32 v" "k = str v" by auto
  then have i: "py_int k = Inr v" by (simp add: py_int_str fits_u32_def)
  from Cons.prems(3) x have la: "fits_u32 (len a)" by simp
  let ?lens = "map (\<lambda>(k, a). len a) its"
  have off: "fits_u32 offset"
  proof (cases "its = []")
    case True
    with Cons.prems(4,5) x la show ?thesis
      by (simp add: spec_payload_length_def round_up16_eq fits_u32_def)
  next
    case False
    from Cons.prems(3) have "\<forall>l \<in> set ?lens. 0 \<le> l" by (auto simp: fits_u32_def)
    with False have "0 \<le> spec_payload_length ?lens" by (intro spec_payload_length_nonneg) simp_all
    moreover have "0 \<le> round_up16 (len a)" using la round_up16_ge [of "len a"] by (simp add: fits_u32_def)
    ultimately show ?thesis using Cons.prems(4,5) x False
      by (simp add: spec_payload_length_Cons fits_u32_def)
  qed
  from v la off have pk: "pack [v, offset, len a] = Inr (le_bytes v @ le_bytes offset @ le_bytes (len a))"
    by (simp add: pack_def)
  show ?case
  proof (cases "its = []")
    case True
    with i pk x show ?thesis by simp
  next
    case False
    have n: "0 \<le> offset + (len a + (- len a) mod 16)"
      using Cons.prems(4) la by (simp add: fits_u32_def)
    have "offset + (len a + (- len a) mod 16) + spec_payload_length ?lens < 4294967296"
      using Cons.prems(5) x False by (simp add: spec_payload_length_Cons round_up16_eq)
    from Cons.IH [OF False _ _ n this, of "Some ((- len a) mod 16)"] Cons.prems(2,3)
    obtain ib r where
      "write_index its (offset + (len a + (- len a) mod 16)) (Some ((- len a) mod 16)) = (ib, Inr r)"
      by auto
    with i pk x show ?thesis by (simp add: Let_def)
  qed
qed

lemma to_file_parsed:
  assumes p: "parse f = Inr b" and ne: "audio_items b \<noteq> []"
    and fit: "spec_payload_length (map (\<lambda>(k, a). len a) (audio_items b)) < 4294967296"
  shows "snd (to_file b) = None"
proof -
  let ?its = "audio_items b"
  let ?lens = "map (\<lambda>(k, a). len a) ?its"
  note h = parse_header_fits [OF p]
  note n = parse_count_fits [OF p]
  note lf = parse_lens_fit [OF p]
  from parse_keys_ok [OF p] have ks: "\<forall>k \<in> fst ` set ?its. \<exists>v. fits_u32 v \<and> k = str v"
    by (simp add: keys_ok_def)
  from write_index_ok [OF ne ks lf, of 0 None] fit obtain ib r where
    wi: "write_index ?its 0 None = (ib, Inr r)" by auto
  from write_index_Inr [OF wi] ne have r: "r = Some ((- len (snd (last ?its))) mod 16)" by simp
  have last: "last ?lens = len (snd (last ?its))"
    using ne by (simp add: last_map case_prod_beta)
  have L: "sum_list (map (\<lambda>(key, audio). (len audio + 15) AND NOT 15) ?its) -
      (- len (snd (last ?its))) mod 16 = spec_payload_length ?lens"
    unfolding spec_payload_length_def last code_sum_round_up ..
  from lf have "\<forall>l \<in> set ?lens. 0 \<le> l" by (auto simp: fits_u32_def)
  with ne have "0 \<le> spec_payload_length ?lens" by (intro spec_payload_length_nonneg) simp_all
  with fit have "fits_u32 (spec_payload_length ?lens)" by (simp add: fits_u32_def)
  then have fl: "fits_u32 (sum_list (map (\<lambda>(key, audio). (len audio + 15) AND NOT 15) ?its) -
      (- len (snd (last ?its))) mod 16)" unfolding L .
  from to_file_ok [OF h n wi [unfolded r] fl] show ?thesis by simp
qed

subsection \<open>Two files of more than 4 GiB\<close>

lemma str_small: "str 1 = ''1''" "str 2 = ''2''"
  by code_simp+

lemma py_int_small: "py_int ''1'' = Inr 1" "py_int ''2'' = Inr 2"
  by code_simp+

lemma read_header_16:
  "read_header (0x42 # 0x4B # 0x48 # 0x44 # 8 # 0 # 0 # 0 # 1 # 0 # 0 # 0 # 7 # 0 # 0 # 0 # r) =
   Inr ([1145588546, 8, 1, 7], r)"
  by (simp add: read_header_def unpack_def hdr_loop.simps)

lemma didx_desc_24: "unpack 2 [0x44, 0x49, 0x44, 0x58, 24, 0, 0, 0] = Inr [MAGIC_DIDX, 24]"
  by (simp add: unpack_def MAGIC_DIDX_def)

lemma data_desc_0: "unpack 2 [0x44, 0x41, 0x54, 0x41, 0, 0, 0, 0] = Inr [MAGIC_AUDIO, 0]"
  by (simp add: unpack_def MAGIC_AUDIO_def)

lemma didx_big:
  "didx_loop 2 [] (1 # 0 # 0 # 0 # 0 # 0 # 0 # 0 # 0 # 0 # 0 # 0x80 #
      2 # 0 # 0 # 0 # 0 # 0 # 0 # 0x80 # 0 # 0 # 0 # 0x80 # r) =
   Inr ([(''1'', \<lparr>len = 2147483648, data = []\<rparr>), (''2'', \<lparr>len = 2147483648, data = []\<rparr>)], r)"
proof -
  have "didx_loop (Suc (Suc 0)) [] (1 # 0 # 0 # 0 # 0 # 0 # 0 # 0 # 0 # 0 # 0 # 0x80 #
      2 # 0 # 0 # 0 # 0 # 0 # 0 # 0x80 # 0 # 0 # 0 # 0x80 # r) =
    Inr ([(''1'', \<lparr>len = 2147483648, data = []\<rparr>), (''2'', \<lparr>len = 2147483648, data = []\<rparr>)], r)"
    by (simp add: unpack_def str_small)
  then show ?thesis by (simp only: numeral_2_eq_2)
qed

lemma data_loop_big:
  "data_loop [(''1'', \<lparr>len = 2147483648, data = []\<rparr>), (''2'', \<lparr>len = 2147483648, data = []\<rparr>)] 0
     (replicate 4294967296 0) =
   Inr ([(''1'', \<lparr>len = 2147483648, data = replicate 2147483648 0\<rparr>),
         (''2'', \<lparr>len = 2147483648, data = replicate 2147483648 0\<rparr>)], [])"
  by (simp add: Let_def)

lemma parse_file_big: "parse file_big = Inr bank_big"
  by (simp add: parse_def file_big_def bank_big_def read_header_16 didx_desc_24 data_desc_0
      didx_big data_loop_big)

lemma to_file_bank_big: "snd (to_file bank_big) = Some StructError"
proof (rule to_file_bad_length)
  show "list_all fits_u32 (header bank_big)" by (simp add: bank_big_def fits_u32_def)
  show "fits_u32 (int (length (audio_items bank_big)) * 12)" by (simp add: bank_big_def fits_u32_def)
  show "write_index (audio_items bank_big) 0 None =
    (le_bytes 1 @ le_bytes 0 @ le_bytes 2147483648 @ le_bytes 2 @ le_bytes 2147483648 @ le_bytes 2147483648,
     Inr (Some 0))"
    by (simp add: bank_big_def py_int_small pack_def fits_u32_def)
  show "\<not> fits_u32 (sum_list (map (\<lambda>(key, audio). (len audio + 15) AND NOT 15) (audio_items bank_big)) - 0)"
    unfolding code_sum_round_up by (simp add: bank_big_def round_up16_def fits_u32_def)
qed

lemma didx_far:
  "didx_loop 2 [] (1 # 0 # 0 # 0 # 0 # 0 # 0 # 0 # 0xFF # 0xFF # 0xFF # 0xFF #
      2 # 0 # 0 # 0 # 0 # 0 # 0 # 0 # 1 # 0 # 0 # 0 # r) =
   Inr ([(''1'', \<lparr>len = 4294967295, data = []\<rparr>), (''2'', \<lparr>len = 1, data = []\<rparr>)], r)"
proof -
  have "didx_loop (Suc (Suc 0)) [] (1 # 0 # 0 # 0 # 0 # 0 # 0 # 0 # 0xFF # 0xFF # 0xFF # 0xFF #
      2 # 0 # 0 # 0 # 0 # 0 # 0 # 0 # 1 # 0 # 0 # 0 # r) =
    Inr ([(''1'', \<lparr>len = 4294967295, data = []\<rparr>), (''2'', \<lparr>len = 1, data = []\<rparr>)], r)"
    by (simp add: unpack_def str_small)
  then show ?thesis by (simp only: numeral_2_eq_2)
qed

lemma data_loop_far:
  "data_loop [(''1'', \<lparr>len = 4294967295, data = []\<rparr>), (''2'', \<lparr>len = 1, data = []\<rparr>)] 0
     (replicate 4294967295 0 @ [0, 9]) =
   Inr ([(''1'', \<lparr>len = 4294967295, data = replicate 4294967295 0\<rparr>),
         (''2'', \<lparr>len = 1, data = [9]\<rparr>)], [])"
  by (simp add: Let_def)

lemma parse_file_far: "parse file_far = Inr bank_far"
  by (simp add: parse_def file_far_def bank_far_def read_header_16 didx_desc_24 data_desc_0
      didx_far data_loop_far)

lemma to_file_bank_far:
  "to_file bank_far =
     ([0x42, 0x4B, 0x48, 0x44, 8, 0, 0, 0, 1, 0, 0, 0, 7, 0, 0, 0,
       0x44, 0x49, 0x44, 0x58, 24, 0, 0, 0,
       1, 0, 0, 0, 0, 0, 0, 0, 0xFF, 0xFF, 0xFF, 0xFF], Some StructError)"
proof -
  have h: "list_all fits_u32 (header bank_far)" by (simp add: bank_far_def fits_u32_def)
  have n: "fits_u32 (int (length (audio_items bank_far)) * 12)"
    by (simp add: bank_far_def fits_u32_def)
  have wi: "write_index (audio_items bank_far) 0 None =
      (le_bytes 1 @ le_bytes 0 @ le_bytes 4294967295, Inl StructError)"
    by (simp add: bank_far_def py_int_small pack_def fits_u32_def)
  show ?thesis
    unfolding to_file_index_error [OF h n wi]
    by (simp add: bank_far_def le_bytes_def MAGIC_DIDX_def)
qed

subsection \<open>Item ids in the index\<close>




subsection \<open>The index entries that were written\<close>






subsection \<open>Strings \<^verbatim>\<open>int\<close> rejects\<close>





section \<open>The claims\<close>

text \<open>
  Claim C1, as stated, covers every bank a successful parse returns. Two such banks
  cannot be written at all. \<open>file_big\<close> parses to two items of 2^31 bytes; their
  payload-chunk length is 2^32, which \<^verbatim>\<open>pack\<close> refuses. \<open>file_none\<close> parses to a bank
  without items, where \<open>to_file\<close> stops on the unassigned \<^verbatim>\<open>padding\<close>.
\<close>

theorem roundtrip_counterexample:
  "parse file_big = Inr bank_big \<and> snd (to_file bank_big) = Some StructError \<and>
   parse file_none = Inr bank_none \<and> snd (to_file bank_none) = Some UnboundLocalError"
proof -
  have "parse file_none = Inr bank_none" by code_simp
  moreover have "snd (to_file bank_none) = Some UnboundLocalError" by code_simp
  ultimately show ?thesis using parse_file_big to_file_bank_big by simp
qed

text \<open>
  Claim C1, amended. For a bank returned by \<open>parse\<close> that has at least one item and whose
  payload-chunk length is below 2^32, \<open>to_file\<close> completes, and parsing what it wrote
  returns the same bank: header words, item ids in order, item lengths, item bytes and
  trailing bytes (and the clean \<open>dirty\<close> flag).
\<close>

theorem parse_to_file_roundtrip:
  assumes "parse f = Inr b"
    and "audio_items b \<noteq> []"
    and "spec_payload_length (map (\<lambda>(k, a). len a) (audio_items b)) < 4294967296"
  shows "snd (to_file b) = None \<and> parse (fst (to_file b)) = Inr b"
proof -
  from assms have s: "snd (to_file b) = None" by (rule to_file_parsed)
  then have "to_file b = (fst (to_file b), None)" by (metis prod.collapse)
  with assms(1) have "parse (fst (to_file b)) = Inr b" by (rule roundtrip)
  with s show ?thesis by simp
qed

theorem parse_to_file_roundtrip_witness:
  "parse file_odd = Inr bank_odd \<and> audio_items bank_odd \<noteq> [] \<and>
   spec_payload_length (map (\<lambda>(k, a). len a) (audio_items bank_odd)) = 17 \<and>
   to_file bank_odd = (file_odd_again, None) \<and>
   parse file_odd_again = Inr bank_odd"
proof -
  have p: "parse file_odd = Inr bank_odd" by code_simp
  have ne: "audio_items bank_odd \<noteq> []" by (simp add: bank_odd_def)
  have sp: "spec_payload_length (map (\<lambda>(k, a). len a) (audio_items bank_odd)) = 17" by code_simp
  then have fit: "spec_payload_length (map (\<lambda>(k, a). len a) (audio_items bank_odd)) < 4294967296"
    by simp
  have t: "to_file bank_odd = (file_odd_again, None)" by code_simp
  from parse_to_file_roundtrip [OF p ne fit] p ne sp t show ?thesis by simp
qed

text \<open>
  Claim C2, as stated, compares two serializations of every parsed bank. For \<open>file_far\<close>
  the first one stops inside the index: the second item's offset is 2^32 and
  \<^verbatim>\<open>pack\<close> raises after one entry. For \<open>file_none\<close> it stops before the payload chunk.
  In both cases there is no first serialization to compare with.
\<close>

theorem reserialize_counterexample:
  "parse file_far = Inr bank_far \<and>
   to_file bank_far =
     ([0x42, 0x4B, 0x48, 0x44, 8, 0, 0, 0, 1, 0, 0, 0, 7, 0, 0, 0,
       0x44, 0x49, 0x44, 0x58, 24, 0, 0, 0,
       1, 0, 0, 0, 0, 0, 0, 0, 0xFF, 0xFF, 0xFF, 0xFF], Some StructError) \<and>
   parse file_none = Inr bank_none \<and>
   to_file bank_none =
     ([0x42, 0x4B, 0x48, 0x44, 8, 0, 0, 0, 1, 0, 0, 0, 7, 0, 0, 0,
       0x44, 0x49, 0x44, 0x58, 0, 0, 0, 0], Some UnboundLocalError)"
proof -
  have "parse file_none = Inr bank_none" by code_simp
  moreover have "to_file bank_none =
     ([0x42, 0x4B, 0x48, 0x44, 8, 0, 0, 0, 1, 0, 0, 0, 7, 0, 0, 0,
       0x44, 0x49, 0x44, 0x58, 0, 0, 0, 0], Some UnboundLocalError)" by code_simp
  ultimately show ?thesis using parse_file_far to_file_bank_far by simp
qed

text \<open>
  Claim C2, amended. For a bank returned by \<open>parse\<close> that has at least one item and whose
  payload-chunk length is below 2^32, \<open>to_file\<close> completes, its output parses, and
  writing the parsed bank again gives the same bytes.
\<close>

theorem to_file_parse_to_file:
  assumes "parse f = Inr b"
    and "audio_items b \<noteq> []"
    and "spec_payload_length (map (\<lambda>(k, a). len a) (audio_items b)) < 4294967296"
  shows "snd (to_file b) = None \<and>
         (\<exists>b'. parse (fst (to_file b)) = Inr b' \<and> to_file b' = to_file b)"
proof -
  from assms have s: "snd (to_file b) = None" by (rule to_file_parsed)
  then have "to_file b = (fst (to_file b), None)" by (metis prod.collapse)
  with assms(1) have "parse (fst (to_file b)) = Inr b" by (rule roundtrip)
  with s show ?thesis by simp
qed

theorem to_file_parse_to_file_witness:
  "parse file_odd = Inr bank_odd \<and> audio_items bank_odd \<noteq> [] \<and>
   spec_payload_length (map (\<lambda>(k, a). len a) (audio_items bank_odd)) = 17 \<and>
   file_odd \<noteq> file_odd_again \<and>
   to_file bank_odd = (file_odd_again, None) \<and>
   parse file_odd_again = Inr bank_odd \<and>
   parse file_two = Inr bank_two \<and> to_file bank_two = (file_two, None)"
proof -
  have p: "parse file_odd = Inr bank_odd" by code_simp
  have ne: "audio_items bank_odd \<noteq> []" by (simp add: bank_odd_def)
  have sp: "spec_payload_length (map (\<lambda>(k, a). len a) (audio_items bank_odd)) = 17" by code_simp
  then have fit: "spec_payload_length (map (\<lambda>(k, a). len a) (audio_items bank_odd)) < 4294967296"
    by simp
  have t: "to_file bank_odd = (file_odd_again, None)" by code_simp
  have d: "file_odd \<noteq> file_odd_again" by code_simp
  have p2: "parse file_two = Inr bank_two" by code_simp
  have t2: "to_file bank_two = (file_two, None)" by code_simp
  have p3: "parse file_odd_again = Inr bank_odd" by code_simp
  from to_file_parse_to_file [OF p ne fit] p ne sp t d p2 t2 p3 show ?thesis by simp
qed

text \<open>
  Claim C3, as stated, asks \<^verbatim>\<open>empty\<close> to fail on an id that is not in the mapping and
  to leave the mapping alone. The code has no such check: on the bank with ids 1 and 2,
  emptying 999 returns normally and appends 999.
\<close>

theorem empty_unknown_id_counterexample:
  "''999'' \<notin> fst ` set (audio_items bank_two) \<and>
   audio_items (empty (Some [''999'']) bank_two) =
     audio_items bank_two @ [(''999'', \<lparr>len = 0, data = []\<rparr>)]"
  by code_simp

text \<open>
  Claim C3, amended. \<^verbatim>\<open>empty\<close> never fails. It sets \<open>dirty\<close>, leaves header and trailing
  bytes alone, and afterwards the id maps to a zero-length item with no data: an id that
  was present keeps its place, an id that was not present is appended as the last entry.
\<close>

theorem empty_inserts_or_replaces:
  "dirty (empty (Some [name]) b) \<and>
   header (empty (Some [name]) b) = header b \<and>
   trailing_data (empty (Some [name]) b) = trailing_data b \<and>
   map_of (audio_items (empty (Some [name]) b)) (fst (splitext name)) = Some \<lparr>len = 0, data = []\<rparr> \<and>
   (fst (splitext name) \<notin> fst ` set (audio_items b) \<longrightarrow>
      audio_items (empty (Some [name]) b) =
        audio_items b @ [(fst (splitext name), \<lparr>len = 0, data = []\<rparr>)]) \<and>
   (fst (splitext name) \<in> fst ` set (audio_items b) \<longrightarrow>
      (\<exists>i<length (audio_items b).
         fst (audio_items b ! i) = fst (splitext name) \<and>
         audio_items (empty (Some [name]) b) =
           (audio_items b)[i := (fst (splitext name), \<lparr>len = 0, data = []\<rparr>)]))"
  using od_set_present [of "fst (splitext name)" "audio_items b" "\<lparr>len = 0, data = []\<rparr>"]
  by (auto simp: empty_single map_of_od_set od_set_absent)

theorem empty_inserts_or_replaces_witness:
  "fst (splitext ''999.wem'') \<notin> fst ` set (audio_items bank_two) \<and>
   audio_items (empty (Some [''999.wem'']) bank_two) =
     [(''1'', \<lparr>len = 3, data = [10, 11, 12]\<rparr>), (''2'', \<lparr>len = 2, data = [20, 21]\<rparr>),
      (''999'', \<lparr>len = 0, data = []\<rparr>)] \<and>
   fst (splitext ''1.wem'') \<in> fst ` set (audio_items bank_two) \<and>
   map_of (audio_items (empty (Some [''1.wem'']) bank_two)) ''1'' = Some \<lparr>len = 0, data = []\<rparr> \<and>
   dirty (empty (Some [''1.wem'']) bank_two)"
proof -
  have a: "fst (splitext ''999.wem'') \<notin> fst ` set (audio_items bank_two)" by code_simp
  have b: "fst (splitext ''1.wem'') \<in> fst ` set (audio_items bank_two)" by code_simp
  have d: "fst (splitext ''1.wem'') = ''1''" by code_simp
  have c: "audio_items bank_two @ [(fst (splitext ''999.wem''), \<lparr>len = 0, data = []\<rparr>)] =
     [(''1'', \<lparr>len = 3, data = [10, 11, 12]\<rparr>), (''2'', \<lparr>len = 2, data = [20, 21]\<rparr>),
      (''999'', \<lparr>len = 0, data = []\<rparr>)]" by code_simp
  show ?thesis
    using a b c empty_inserts_or_replaces [of "''999.wem''" bank_two]
      empty_inserts_or_replaces [of "''1.wem''" bank_two]
    unfolding d by simp
qed

text \<open>
  Claim C4, as stated, asks \<open>parse\<close> to fail when the index chunk's length is not a
  multiple of 12. The code computes \<^verbatim>\<open>length // 12\<close> and checks nothing: a file
  declaring 13 bytes parses, with one item.
\<close>

theorem index_length_not_checked_counterexample:
  "read_header file_len13 = Inr ([1145588546, 8, 1, 7], drop 16 file_len13) \<and>
   le_int (take 4 (drop 4 (drop 16 file_len13))) = 13 \<and>
   \<not> 12 dvd (13 :: int) \<and>
   parse file_len13 =
     Inr \<lparr>header = [1145588546, 8, 1, 7], audio_items = [(''1'', \<lparr>len = 1, data = [42]\<rparr>)],
          trailing_data = [], dirty = False\<rparr>"
  by code_simp

text \<open>
  Claim C4, amended. The item count is the declared length divided by 12, rounded down;
  the remainder is ignored. A file parses exactly as the same file with the declared
  length rounded down to a multiple of 12.
\<close>

theorem index_length_rounds_down:
  assumes "read_header (pre @ le_bytes MAGIC_DIDX @ le_bytes l @ rest) =
             Inr (hdr, le_bytes MAGIC_DIDX @ le_bytes l @ rest)"
    and "fits_u32 l"
  shows "parse (pre @ le_bytes MAGIC_DIDX @ le_bytes l @ rest) =
         parse (pre @ le_bytes MAGIC_DIDX @ le_bytes (12 * (l div 12)) @ rest)"
proof -
  have l': "fits_u32 (12 * (l div 12))"
  proof -
    have "l div 12 * 12 + l mod 12 = l" by simp
    moreover have "0 \<le> l mod 12" by simp
    moreover have "0 \<le> l div 12" using assms(2) by (simp add: fits_u32_def pos_imp_zdiv_nonneg_iff)
    ultimately show ?thesis using assms(2) unfolding fits_u32_def by linarith
  qed
  have h': "read_header (pre @ le_bytes MAGIC_DIDX @ le_bytes (12 * (l div 12)) @ rest) =
             Inr (hdr, le_bytes MAGIC_DIDX @ le_bytes (12 * (l div 12)) @ rest)"
    using assms(1) by (rule read_header_same_prefix)
  show ?thesis
    unfolding parse_def assms(1) h'
    by (simp add: unpack_two_bytes assms(2) l' del: take_append)
qed

theorem index_length_rounds_down_witness:
  "read_header (take 16 file_len13 @ le_bytes MAGIC_DIDX @ le_bytes 13 @ drop 24 file_len13) =
     Inr ([1145588546, 8, 1, 7], le_bytes MAGIC_DIDX @ le_bytes 13 @ drop 24 file_len13) \<and>
   fits_u32 13 \<and>
   take 16 file_len13 @ le_bytes MAGIC_DIDX @ le_bytes 13 @ drop 24 file_len13 = file_len13 \<and>
   parse file_len13 =
     parse (take 16 file_len13 @ le_bytes MAGIC_DIDX @ le_bytes 12 @ drop 24 file_len13)"
proof -
  have h: "read_header (take 16 file_len13 @ le_bytes MAGIC_DIDX @ le_bytes 13 @ drop 24 file_len13) =
     Inr ([1145588546, 8, 1, 7], le_bytes MAGIC_DIDX @ le_bytes 13 @ drop 24 file_len13)"
    by code_simp
  have f: "fits_u32 13" by (simp add: fits_u32_def)
  have e: "take 16 file_len13 @ le_bytes MAGIC_DIDX @ le_bytes 13 @ drop 24 file_len13 = file_len13"
    by code_simp
  from index_length_rounds_down [OF h f] h f e show ?thesis by simp
qed

text \<open>
  Claim C5. When the header has been read and eight more bytes are there, a first word
  other than 0x58444944 makes \<open>parse\<close> raise the \<^verbatim>\<open>ValueError\<close> that reports the
  expected value 0x58444944 and the value found; nothing is parsed after it.
\<close>

theorem index_magic_mismatch:
  assumes "read_header file = Inr (hdr, f1)"
    and "8 \<le> length f1"
    and "le_int (take 4 f1) \<noteq> 0x58444944"
  shows "parse file = Inl (ValueErrorMagic 0x58444944 (le_int (take 4 f1)))"
  using assms by (simp add: parse_def unpack_two MAGIC_DIDX_def)

theorem index_magic_mismatch_witness:
  "read_header file_bad_magic = Inr ([1145588546, 8, 1, 7], drop 16 file_bad_magic) \<and>
   8 \<le> length (drop 16 file_bad_magic) \<and>
   le_int (take 4 (drop 16 file_bad_magic)) = 0 \<and>
   parse file_bad_magic = Inl (ValueErrorMagic 0x58444944 0)"
proof -
  have h: "read_header file_bad_magic = Inr ([1145588546, 8, 1, 7], drop 16 file_bad_magic)"
    by code_simp
  have l: "8 \<le> length (drop 16 file_bad_magic)" by code_simp
  have z: "le_int (take 4 (drop 16 file_bad_magic)) = 0" by code_simp
  from index_magic_mismatch [OF h l] z h l show ?thesis by simp
qed



text \<open>
  Claim C7. \<^verbatim>\<open>update\<close> of one file that can be read: an id already present keeps its
  position (the list of ids is unchanged, the entry at that position holds the new
  payload), an id not present is appended as the last entry; in both cases no error is
  raised and \<open>dirty\<close> is set.
\<close>

theorem update_keeps_order:
  assumes "fs file = Some d"
  shows "snd (update fs (Some [file]) b) = None \<and>
         dirty (fst (update fs (Some [file]) b)) \<and>
         (fst (splitext file) \<in> fst ` set (audio_items b) \<longrightarrow>
            map fst (audio_items (fst (update fs (Some [file]) b))) = map fst (audio_items b) \<and>
            (\<exists>i<length (audio_items b).
               fst (audio_items b ! i) = fst (splitext file) \<and>
               audio_items (fst (update fs (Some [file]) b)) =
                 (audio_items b)[i := (fst (splitext file), \<lparr>len = int (length d), data = d\<rparr>)])) \<and>
         (fst (splitext file) \<notin> fst ` set (audio_items b) \<longrightarrow>
            audio_items (fst (update fs (Some [file]) b)) =
              audio_items b @ [(fst (splitext file), \<lparr>len = int (length d), data = d\<rparr>)])"
  using od_set_present [of "fst (splitext file)" "audio_items b" "\<lparr>len = int (length d), data = d\<rparr>"]
  using assms by (auto simp: update_single [of fs "file" d b] od_set_absent od_set_keys_present)

theorem update_keeps_order_witness:
  "fs_one ''1.wem'' = Some [1, 2, 3, 4, 5] \<and>
   fst (splitext ''1.wem'') \<in> fst ` set (audio_items bank_two) \<and>
   map fst (audio_items (fst (update fs_one (Some [''1.wem'']) bank_two))) = [''1'', ''2''] \<and>
   fs_one ''snd/77.wem'' = Some [7] \<and>
   fst (splitext ''snd/77.wem'') \<notin> fst ` set (audio_items bank_two) \<and>
   audio_items (fst (update fs_one (Some [''snd/77.wem'']) bank_two)) =
     audio_items bank_two @ [(''snd/77'', \<lparr>len = 1, data = [7]\<rparr>)] \<and>
   dirty (fst (update fs_one (Some [''1.wem'']) bank_two)) \<and>
   dirty (fst (update fs_one (Some [''snd/77.wem'']) bank_two))"
proof -
  have a: "fs_one ''1.wem'' = Some [1, 2, 3, 4, 5]" by (simp add: fs_one_def)
  have b: "fs_one ''snd/77.wem'' = Some [7]" by (simp add: fs_one_def)
  have c: "fst (splitext ''1.wem'') \<in> fst ` set (audio_items bank_two)" by code_simp
  have d: "fst (splitext ''snd/77.wem'') \<notin> fst ` set (audio_items bank_two)" by code_simp
  have e: "map fst (audio_items bank_two) = [''1'', ''2'']" by code_simp
  have f: "fst (splitext ''snd/77.wem'') = ''snd/77''" by code_simp
  show ?thesis
    using a b c d e f update_keeps_order [of fs_one "''1.wem''" "[1, 2, 3, 4, 5]" bank_two]
      update_keeps_order [of fs_one "''snd/77.wem''" "[7]" bank_two]
    by simp
qed



text \<open>
  Claim C9. In every bank reachable by \<open>parse\<close> followed by any \<^verbatim>\<open>update\<close> and
  \<^verbatim>\<open>empty\<close> calls, every item stores exactly \<open>len\<close> bytes, and an emptied item has
  length 0 and no data.
\<close>

theorem data_length_invariant:
  assumes "reachable b"
  shows "(\<forall>(k, a) \<in> set (audio_items b). int (length (data a)) = len a) \<and>
         (\<forall>name. map_of (audio_items (empty (Some [name]) b)) (fst (splitext name)) =
                   Some \<lparr>len = 0, data = []\<rparr>)"
  using reachable_data_ok [OF assms] by (simp add: data_ok_def empty_single map_of_od_set)

theorem data_length_invariant_witness:
  "reachable (fst (update fs_one (Some [''1.wem'']) bank_two)) \<and>
   audio_items (fst (update fs_one (Some [''1.wem'']) bank_two)) =
     [(''1'', \<lparr>len = 5, data = [1, 2, 3, 4, 5]\<rparr>), (''2'', \<lparr>len = 2, data = [20, 21]\<rparr>)] \<and>
   map (\<lambda>(k, a). (int (length (data a)), len a))
     (audio_items (fst (update fs_one (Some [''1.wem'']) bank_two))) = [(5, 5), (2, 2)] \<and>
   map_of (audio_items (empty (Some [''2.wem''])
       (fst (update fs_one (Some [''1.wem'']) bank_two)))) (fst (splitext ''2.wem'')) =
     Some \<lparr>len = 0, data = []\<rparr>"
proof -
  have p: "parse file_two = Inr bank_two" by code_simp
  have r: "reachable (fst (update fs_one (Some [''1.wem'']) bank_two))"
    by (rule reach_update [OF reach_parse [OF p]]) (rule surjective_pairing)
  have v: "audio_items (fst (update fs_one (Some [''1.wem'']) bank_two)) =
     [(''1'', \<lparr>len = 5, data = [1, 2, 3, 4, 5]\<rparr>), (''2'', \<lparr>len = 2, data = [20, 21]\<rparr>)]"
    by (simp add: update_def fs_one_def bank_two_def) code_simp
  show ?thesis using r v data_length_invariant [OF r] by simp
qed

text \<open>
  Claim C10. For a bank without items \<open>to_file\<close> does not complete: the index loop never
  assigns \<^verbatim>\<open>padding\<close>, and reading it for the payload-chunk length raises
  \<^verbatim>\<open>UnboundLocalError\<close> after the header and the index-chunk descriptor have been
  written (when the header words can be packed; otherwise \<^verbatim>\<open>pack\<close> raises earlier).
  So \<open>to_file\<close> completes only for banks with at least one item.
\<close>

theorem to_file_without_items:
  assumes "audio_items b = []"
  shows "snd (to_file b) \<noteq> None \<and>
         (list_all fits_u32 (header b) \<longrightarrow>
            to_file b =
              (concat (map le_bytes (header b)) @ le_bytes MAGIC_DIDX @ le_bytes 0,
               Some UnboundLocalError))"
proof (cases "list_all fits_u32 (header b)")
  case True
  then have "write_header (header b) = (concat (map le_bytes (header b)), None)"
    by (rule write_header_fits)
  with assms show ?thesis
    by (simp add: to_file_def pack_def fits_u32_def MAGIC_DIDX_def)
next
  case False
  then show ?thesis by (simp add: to_file_def write_header_eq)
qed

theorem to_file_without_items_witness:
  "audio_items bank_none = [] \<and> list_all fits_u32 (header bank_none) \<and>
   to_file bank_none =
     ([0x42, 0x4B, 0x48, 0x44, 8, 0, 0, 0, 1, 0, 0, 0, 7, 0, 0, 0,
       0x44, 0x49, 0x44, 0x58, 0, 0, 0, 0], Some UnboundLocalError)"
  using to_file_without_items [of bank_none]
  by (simp add: bank_none_def fits_u32_def le_bytes_def MAGIC_DIDX_def)

end
